theory Spec2Isabelle
  imports Complex_Main "HOL-Library.AList"
begin

section \<open>Numbers\<close>

text \<open>
  Coordinates, lengths, the speed and the progress fraction are JavaScript numbers, that
  is IEEE 754 doubles.  A finite double is modelled by the real number it denotes, and
  every arithmetic operation of the program rounds its exact result to the nearest double,
  ties to the even significand (\<open>fl\<close>: 53 bits of precision, with the fixed spacing of the
  subnormal range below \<open>2 ^ - 1022\<close>).  Numbers beyond the largest double (overflow to
  Infinity) are not modelled: canvas and pointer coordinates are far below it.  The sign
  of zero is not modelled either: \<^verbatim>\<open>Math.hypot\<close> never returns a negative zero.
\<close>

definition round_even :: "real \<Rightarrow> int" where
  "round_even y =
     (let f = \<lfloor>y\<rfloor>; r = y - of_int f
      in if r < 1 / 2 then f else if 1 / 2 < r then f + 1 else if even f then f else f + 1)"

definition pow2 :: "int \<Rightarrow> real" where
  "pow2 e = 2 powr of_int e"

text \<open>The exponent of the spacing of the doubles around \<open>x\<close>.\<close>

definition ulp_exp :: "real \<Rightarrow> int" where
  "ulp_exp x = max \<lfloor>log 2 \<bar>x\<bar>\<rfloor> (- 1022) - 52"

definition fl :: "real \<Rightarrow> real" where
  "fl x = (if x = 0 then 0 else of_int (round_even (x / pow2 (ulp_exp x))) * pow2 (ulp_exp x))"

text \<open>The subtraction \<^verbatim>\<open>a - b\<close> of two finite numbers.\<close>

definition fl_sub :: "real \<Rightarrow> real \<Rightarrow> real" where
  "fl_sub a b = fl (a - b)"

text \<open>
  \<^verbatim>\<open>Math.hypot(dx, dy)\<close> on finite arguments.  ECMAScript leaves the precision of
  \<^verbatim>\<open>Math.hypot\<close> to the implementation; the model takes the correctly rounded value.
\<close>

definition hypot :: "real \<Rightarrow> real \<Rightarrow> real" where
  "hypot dx dy = fl (sqrt (dx\<^sup>2 + dy\<^sup>2))"

text \<open>
  The division \<^verbatim>\<open>speed / segLength\<close> can leave the finite numbers; its result, the
  progress fraction and the vehicle position are therefore values of \<open>jsnum\<close>, which adds
  the IEEE values +Infinity, -Infinity and NaN.
\<close>

datatype jsnum = Fin real | PInf | NInf | NaN

fun js_div :: "jsnum \<Rightarrow> jsnum \<Rightarrow> jsnum" where
  "js_div (Fin a) (Fin b) =
     (if b \<noteq> 0 then Fin (fl (a / b))
      else if 0 < a then PInf else if a < 0 then NInf else NaN)"
| "js_div NaN _ = NaN"
| "js_div _ NaN = NaN"
| "js_div (Fin a) _ = Fin 0"
| "js_div PInf (Fin b) = (if 0 \<le> b then PInf else NInf)"
| "js_div NInf (Fin b) = (if 0 \<le> b then NInf else PInf)"
| "js_div _ _ = NaN"

fun js_add :: "jsnum \<Rightarrow> jsnum \<Rightarrow> jsnum" where
  "js_add (Fin a) (Fin b) = Fin (fl (a + b))"
| "js_add NaN _ = NaN"
| "js_add _ NaN = NaN"
| "js_add PInf NInf = NaN"
| "js_add NInf PInf = NaN"
| "js_add PInf _ = PInf"
| "js_add _ PInf = PInf"
| "js_add NInf _ = NInf"
| "js_add _ NInf = NInf"

fun js_mul :: "jsnum \<Rightarrow> jsnum \<Rightarrow> jsnum" where
  "js_mul (Fin a) (Fin b) = Fin (fl (a * b))"
| "js_mul NaN _ = NaN"
| "js_mul _ NaN = NaN"
| "js_mul (Fin a) PInf = (if 0 < a then PInf else if a < 0 then NInf else NaN)"
| "js_mul (Fin a) NInf = (if 0 < a then NInf else if a < 0 then PInf else NaN)"
| "js_mul PInf (Fin b) = (if 0 < b then PInf else if b < 0 then NInf else NaN)"
| "js_mul NInf (Fin b) = (if 0 < b then NInf else if b < 0 then PInf else NaN)"
| "js_mul PInf PInf = PInf"
| "js_mul NInf NInf = PInf"
| "js_mul PInf NInf = NInf"
| "js_mul NInf PInf = NInf"

text \<open>The comparison \<^verbatim>\<open>a >= b\<close>: false as soon as one side is NaN.\<close>

fun js_ge :: "jsnum \<Rightarrow> jsnum \<Rightarrow> bool" where
  "js_ge (Fin a) (Fin b) = (b \<le> a)"
| "js_ge NaN _ = False"
| "js_ge _ NaN = False"
| "js_ge PInf _ = True"
| "js_ge _ NInf = True"
| "js_ge _ _ = False"


section \<open>Data\<close>

text \<open>
  The repository holds the game twice: \<^verbatim>\<open>game.js\<close>, where the vehicle is an object
  literal and \<^verbatim>\<open>updateCar\<close> moves it inline, and a second script (its file name is
  not known) where the vehicle is a class \<^verbatim>\<open>Car\<close> with an \<^verbatim>\<open>update\<close> method.
  Functions that differ between the two are modelled twice; the ones of the second script
  carry the suffix \<open>_cls\<close>.  Code that is the same statement for statement in both
  (the neighbour loop and the path reconstruction of \<^verbatim>\<open>findPath\<close>, \<^verbatim>\<open>resetCar\<close>,
  the mouse handlers, and the motion code, which is the body of \<^verbatim>\<open>Car.update\<close> in the
  second script and lines 129 to 153 of \<^verbatim>\<open>updateCar\<close> in \<^verbatim>\<open>game.js\<close>) is
  modelled once.
\<close>

datatype error = TypeError

record node =
  node_id :: nat
  node_x :: real
  node_y :: real

record edge =
  edge_id :: nat
  edge_dist :: real

record road =
  road_x1 :: real
  road_y1 :: real
  road_x2 :: real
  road_y2 :: real

text \<open>
  The adjacency object \<^verbatim>\<open>adj\<close>, keyed by node id, is an association list read
  through \<open>map_of\<close>; a key that is absent reads as \<^verbatim>\<open>undefined\<close>.
\<close>

type_synonym adjacency = "(nat \<times> edge list) list"

record graph =
  nodes :: "node list"
  adj :: adjacency
  startNode :: node
  destNode :: node

text \<open>
  The canvas element belongs to the page, which is not part of the sources; its size is a
  parameter.
\<close>

record canvas =
  canvas_width :: real
  canvas_height :: real

definition SNAP_THRESHOLD :: real where
  "SNAP_THRESHOLD = 10"

definition start :: "real \<times> real" where
  "start = (80, 80)"

definition dest :: "canvas \<Rightarrow> real \<times> real" where
  "dest cv = (fl_sub (canvas_width cv) 80, fl_sub (canvas_height cv) 80)"

section \<open>Graph building\<close>

text \<open>
  The loop of \<^verbatim>\<open>getOrCreateNode\<close>: the first node of the list closer than the
  threshold to \<open>(x, y)\<close>.
\<close>

definition nearNode :: "real \<Rightarrow> real \<Rightarrow> node list \<Rightarrow> node option" where
  "nearNode x y ns =
     find (\<lambda>n. hypot (fl_sub (node_x n) x) (fl_sub (node_y n) y) < SNAP_THRESHOLD) ns"

subsection \<open>game.js\<close>

text \<open>
  \<^verbatim>\<open>getOrCreateNode\<close> is a closure over \<^verbatim>\<open>nodes\<close> and \<^verbatim>\<open>adj\<close>; the model
  passes both and returns them with the node.  A new node gets an empty adjacency entry.
\<close>

definition getOrCreateNode ::
  "real \<Rightarrow> real \<Rightarrow> node list \<times> adjacency \<Rightarrow> node \<times> node list \<times> adjacency" where
  "getOrCreateNode x y s =
     (case s of (ns, a) \<Rightarrow>
       (case nearNode x y ns of
          Some n \<Rightarrow> (n, ns, a)
        | None \<Rightarrow>
            (let newNode = \<lparr>node_id = length ns, node_x = x, node_y = y\<rparr>
             in (newNode, ns @ [newNode], AList.update (node_id newNode) [] a))))"

text \<open>
  \<^verbatim>\<open>adj[k].push(e)\<close>: a TypeError when \<^verbatim>\<open>adj[k]\<close> is undefined.
\<close>

definition push_adj :: "nat \<Rightarrow> edge \<Rightarrow> adjacency \<Rightarrow> error + adjacency" where
  "push_adj k e a =
     (case map_of a k of
        None \<Rightarrow> Inl TypeError
      | Some es \<Rightarrow> Inr (AList.update k (es @ [e]) a))"

text \<open>The body of the \<^verbatim>\<open>roads.forEach\<close> callback.\<close>

definition addRoad :: "road \<Rightarrow> node list \<times> adjacency \<Rightarrow> error + node list \<times> adjacency" where
  "addRoad r s =
     (case getOrCreateNode (road_x1 r) (road_y1 r) s of (nodeA, ns1, a1) \<Rightarrow>
       (case getOrCreateNode (road_x2 r) (road_y2 r) (ns1, a1) of (nodeB, ns2, a2) \<Rightarrow>
         (let distance = hypot (fl_sub (node_x nodeA) (node_x nodeB))
                               (fl_sub (node_y nodeA) (node_y nodeB))
          in (case push_adj (node_id nodeA) \<lparr>edge_id = node_id nodeB, edge_dist = distance\<rparr> a2 of
                Inl e \<Rightarrow> Inl e
              | Inr a3 \<Rightarrow>
                 (case push_adj (node_id nodeB) \<lparr>edge_id = node_id nodeA, edge_dist = distance\<rparr> a3 of
                    Inl e \<Rightarrow> Inl e
                  | Inr a4 \<Rightarrow> Inr (ns2, a4))))))"

fun addRoads :: "road list \<Rightarrow> node list \<times> adjacency \<Rightarrow> error + node list \<times> adjacency" where
  "addRoads [] s = Inr s"
| "addRoads (r # rs) s =
     (case addRoad r s of Inl e \<Rightarrow> Inl e | Inr s' \<Rightarrow> addRoads rs s')"

definition buildGraph :: "canvas \<Rightarrow> road list \<Rightarrow> error + graph" where
  "buildGraph cv rs =
     (case getOrCreateNode (fst start) (snd start) ([], []) of (sn, ns1, a1) \<Rightarrow>
       (case getOrCreateNode (fst (dest cv)) (snd (dest cv)) (ns1, a1) of (dn, ns2, a2) \<Rightarrow>
         (case addRoads rs (ns2, a2) of
            Inl e \<Rightarrow> Inl e
          | Inr (ns, a) \<Rightarrow> Inr \<lparr>nodes = ns, adj = a, startNode = sn, destNode = dn\<rparr>)))"

subsection \<open>The second script\<close>

text \<open>
  Here \<^verbatim>\<open>getOrCreateNode\<close> is a top-level function that takes the node list and does
  not touch \<^verbatim>\<open>adj\<close>; \<^verbatim>\<open>addEdge\<close> creates the adjacency entries on demand.
\<close>

definition getOrCreateNode_cls :: "real \<Rightarrow> real \<Rightarrow> node list \<Rightarrow> node \<times> node list" where
  "getOrCreateNode_cls x y ns =
     (case nearNode x y ns of
        Some n \<Rightarrow> (n, ns)
      | None \<Rightarrow>
          (let newNode = \<lparr>node_id = length ns, node_x = x, node_y = y\<rparr>
           in (newNode, ns @ [newNode])))"

text \<open>\<^verbatim>\<open>if (!adj[k]) adj[k] = []\<close>: an array, also an empty one, is truthy.\<close>

definition ensure_adj :: "nat \<Rightarrow> adjacency \<Rightarrow> adjacency" where
  "ensure_adj k a = (case map_of a k of None \<Rightarrow> AList.update k [] a | Some es \<Rightarrow> a)"

definition addEdge :: "node \<Rightarrow> node \<Rightarrow> adjacency \<Rightarrow> error + adjacency" where
  "addEdge n1 n2 a =
     (let d = hypot (fl_sub (node_x n1) (node_x n2)) (fl_sub (node_y n1) (node_y n2));
          a1 = ensure_adj (node_id n1) a;
          a2 = ensure_adj (node_id n2) a1
      in case push_adj (node_id n1) \<lparr>edge_id = node_id n2, edge_dist = d\<rparr> a2 of
           Inl e \<Rightarrow> Inl e
         | Inr a3 \<Rightarrow> push_adj (node_id n2) \<lparr>edge_id = node_id n1, edge_dist = d\<rparr> a3)"

definition addRoad_cls :: "road \<Rightarrow> node list \<times> adjacency \<Rightarrow> error + node list \<times> adjacency" where
  "addRoad_cls r s =
     (case s of (ns, a) \<Rightarrow>
       (case getOrCreateNode_cls (road_x1 r) (road_y1 r) ns of (nodeA, ns1) \<Rightarrow>
         (case getOrCreateNode_cls (road_x2 r) (road_y2 r) ns1 of (nodeB, ns2) \<Rightarrow>
           (case addEdge nodeA nodeB a of
              Inl e \<Rightarrow> Inl e
            | Inr a' \<Rightarrow> Inr (ns2, a')))))"

fun addRoads_cls :: "road list \<Rightarrow> node list \<times> adjacency \<Rightarrow> error + node list \<times> adjacency" where
  "addRoads_cls [] s = Inr s"
| "addRoads_cls (r # rs) s =
     (case addRoad_cls r s of Inl e \<Rightarrow> Inl e | Inr s' \<Rightarrow> addRoads_cls rs s')"

definition buildGraph_cls :: "canvas \<Rightarrow> road list \<Rightarrow> error + graph" where
  "buildGraph_cls cv rs =
     (case getOrCreateNode_cls (fst start) (snd start) [] of (sn, ns1) \<Rightarrow>
       (case getOrCreateNode_cls (fst (dest cv)) (snd (dest cv)) ns1 of (dn, ns2) \<Rightarrow>
         (case addRoads_cls rs (ns2, []) of
            Inl e \<Rightarrow> Inl e
          | Inr (ns, a) \<Rightarrow> Inr \<lparr>nodes = ns, adj = a, startNode = sn, destNode = dn\<rparr>)))"

section \<open>Path finding\<close>

text \<open>
  \<^verbatim>\<open>cameFrom\<close> maps a visited id to its predecessor, \<^verbatim>\<open>null\<close> for the start:
  \<open>None\<close> is an absent key, \<open>Some None\<close> is \<^verbatim>\<open>null\<close>.  A path is the array
  built by \<^verbatim>\<open>unshift\<close>; \<^verbatim>\<open>nodes.find\<close> yields \<^verbatim>\<open>undefined\<close> for an id that
  no node has, so an element of the array is a node or \<^verbatim>\<open>undefined\<close> (\<open>None\<close>).
\<close>

type_synonym cameFrom = "nat \<Rightarrow> nat option option"
type_synonym path = "node option list"

text \<open>\<^verbatim>\<open>adj[current] || []\<close>, the neighbour list that the second script iterates over.\<close>

definition neighbors_cls :: "adjacency \<Rightarrow> nat \<Rightarrow> edge list" where
  "neighbors_cls a k = (case map_of a k of None \<Rightarrow> [] | Some es \<Rightarrow> es)"

text \<open>
  The loop over the neighbours of \<open>current\<close>: a neighbour whose id is not yet a key of
  \<^verbatim>\<open>cameFrom\<close> gets \<open>current\<close> as predecessor and joins the end of the queue.
\<close>

fun expand :: "nat \<Rightarrow> edge list \<Rightarrow> cameFrom \<times> nat list \<Rightarrow> cameFrom \<times> nat list" where
  "expand current [] s = s"
| "expand current (neighbor # es) (cf, queue) =
     (if cf (edge_id neighbor) = None
      then expand current es (cf(edge_id neighbor \<mapsto> Some current), queue @ [edge_id neighbor])
      else expand current es (cf, queue))"

text \<open>
  The reconstruction loop \<^verbatim>\<open>while (current !== null)\<close>.  On a predecessor map with a
  cycle, or when \<^verbatim>\<open>cameFrom[current]\<close> is \<^verbatim>\<open>undefined\<close>, it never returns: the
  function is partial, \<open>None\<close> standing for a loop that does not end.
\<close>

partial_function (option) reconstruct ::
  "node list \<Rightarrow> cameFrom \<Rightarrow> nat option option \<Rightarrow> path \<Rightarrow> path option" where
  "reconstruct ns cf current p =
     (case current of
        Some None \<Rightarrow> Some p
      | Some (Some c) \<Rightarrow> reconstruct ns cf (cf c) (find (\<lambda>n. node_id n = c) ns # p)
      | None \<Rightarrow> reconstruct ns cf None (None # p))"

text \<open>
  The search loop ends on every input: a step takes one id from the queue, and every id
  it adds to the queue is a neighbour id of the adjacency object that becomes a key of
  \<^verbatim>\<open>cameFrom\<close> at that moment.
\<close>

definition all_ids :: "adjacency \<Rightarrow> nat set" where
  "all_ids a = (\<Union>(k, es) \<in> set a. edge_id ` set es)"

definition bfs_measure :: "adjacency \<Rightarrow> cameFrom \<times> nat list \<Rightarrow> nat" where
  "bfs_measure a s = 2 * card (all_ids a - dom (fst s)) + length (snd s)"

lemma finite_all_ids: "finite (all_ids a)"
  by (auto simp: all_ids_def)

lemma expand_measure:
  "edge_id ` set es \<subseteq> all_ids a \<Longrightarrow> bfs_measure a (expand c es s) \<le> bfs_measure a s"
proof (induction es arbitrary: s)
  case Nil
  then show ?case by simp
next
  case (Cons e es)
  obtain cf q where s: "s = (cf, q)" by (cases s)
  show ?case
  proof (cases "cf (edge_id e) = None")
    case True
    have in_ids: "edge_id e \<in> all_ids a - dom cf"
      using Cons.prems True by (auto simp: dom_def)
    have "all_ids a - dom (cf(edge_id e \<mapsto> Some c)) = (all_ids a - dom cf) - {edge_id e}"
      by auto
    then have "card (all_ids a - dom (cf(edge_id e \<mapsto> Some c))) = card (all_ids a - dom cf) - 1"
      using in_ids by (simp add: finite_all_ids)
    moreover have "0 < card (all_ids a - dom cf)"
      using in_ids finite_all_ids[of a] by (metis card_gt_0_iff empty_iff finite_Diff)
    ultimately have "bfs_measure a (cf(edge_id e \<mapsto> Some c), q @ [edge_id e]) \<le> bfs_measure a (cf, q)"
      by (simp add: bfs_measure_def)
    moreover have "bfs_measure a (expand c es (cf(edge_id e \<mapsto> Some c), q @ [edge_id e]))
        \<le> bfs_measure a (cf(edge_id e \<mapsto> Some c), q @ [edge_id e])"
      using Cons.prems by (intro Cons.IH) auto
    ultimately show ?thesis using True s by simp
  next
    case False
    then show ?thesis using Cons s by (simp del: not_None_eq)
  qed
qed

lemma neighbors_cls_ids: "edge_id ` set (neighbors_cls a k) \<subseteq> all_ids a"
proof (cases "map_of a k")
  case None
  then show ?thesis by (simp add: neighbors_cls_def)
next
  case (Some es)
  then have "(k, es) \<in> set a" by (rule map_of_SomeD)
  then show ?thesis using Some by (auto simp: neighbors_cls_def all_ids_def)
qed

lemma expand_decreases:
  assumes "edge_id ` set es \<subseteq> all_ids a"
  shows "bfs_measure a (expand current es (cf, queue)) < bfs_measure a (cf, current # queue)"
proof -
  have "bfs_measure a (expand current es (cf, queue)) \<le> bfs_measure a (cf, queue)"
    using assms by (rule expand_measure)
  then show ?thesis by (simp add: bfs_measure_def)
qed

lemma map_of_ids: "map_of a k = Some es \<Longrightarrow> edge_id ` set es \<subseteq> all_ids a"
  by (auto simp: all_ids_def dest!: map_of_SomeD)

text \<open>
  The loop \<^verbatim>\<open>while (queue.length > 0)\<close> of the second script, from the state (queue,
  \<^verbatim>\<open>cameFrom\<close>); \<open>d\<close> is the id of the destination node.
\<close>

function bfs_cls :: "node list \<Rightarrow> adjacency \<Rightarrow> nat \<Rightarrow> nat list \<Rightarrow> cameFrom \<Rightarrow> path option option" where
  "bfs_cls ns a d [] cf = Some None"
| "bfs_cls ns a d (current # queue) cf =
     (if current = d
      then map_option Some (reconstruct ns cf (Some (Some current)) [])
      else (case expand current (neighbors_cls a current) (cf, queue) of
              (cf', queue') \<Rightarrow> bfs_cls ns a d queue' cf'))"
  by pat_completeness auto
termination
  apply (relation "measure (\<lambda>(ns, a, d, q, cf). bfs_measure a (cf, q))")
   apply simp
  apply (simp add: expand_decreases neighbors_cls_ids)
  done

text \<open>The same loop in game.js, where a missing adjacency entry is a TypeError.\<close>

function bfs :: "node list \<Rightarrow> adjacency \<Rightarrow> nat \<Rightarrow> nat list \<Rightarrow> cameFrom \<Rightarrow> (error + path option) option" where
  "bfs ns a d [] cf = Some (Inr None)"
| "bfs ns a d (current # queue) cf =
     (if current = d
      then map_option (\<lambda>p. Inr (Some p)) (reconstruct ns cf (Some (Some current)) [])
      else (case map_of a current of
              None \<Rightarrow> Some (Inl TypeError)
            | Some es \<Rightarrow>
               (case expand current es (cf, queue) of
                  (cf', queue') \<Rightarrow> bfs ns a d queue' cf')))"
  by pat_completeness auto
termination
  apply (relation "measure (\<lambda>(ns, a, d, q, cf). bfs_measure a (cf, q))")
   apply simp
  apply (simp add: expand_decreases map_of_ids)
  done


text \<open>
  \<^verbatim>\<open>findPath\<close> of game.js reads \<^verbatim>\<open>adj[current]\<close> as it is (iterating over
  \<^verbatim>\<open>undefined\<close> is a TypeError); the second script reads \<^verbatim>\<open>adj[current] || []\<close>.
  The outer \<open>option\<close> of the result is \<open>None\<close> when the reconstruction loop does not
  return; inside, \<open>None\<close> is the result \<^verbatim>\<open>null\<close>.
\<close>

definition findPath :: "graph \<Rightarrow> (error + path option) option" where
  "findPath g =
     bfs (nodes g) (adj g) (node_id (destNode g)) [node_id (startNode g)]
       ((\<lambda>k. None)(node_id (startNode g) \<mapsto> None))"

definition findPath_cls :: "graph \<Rightarrow> path option option" where
  "findPath_cls g =
     bfs_cls (nodes g) (adj g) (node_id (destNode g)) [node_id (startNode g)]
       ((\<lambda>k. None)(node_id (startNode g) \<mapsto> None))"

section \<open>The vehicle and the game state\<close>

record Car =
  car_x :: jsnum
  car_y :: jsnum
  car_speed :: real
  car_path :: "path option"
  car_segIndex :: nat
  car_progress :: jsnum

record state =
  score :: nat
  roads :: "road list"
  car :: Car
  isDrawing :: bool
  drawStart :: "real \<times> real"
  mousePos :: "real \<times> real"

definition initial :: state where
  "initial =
     \<lparr>score = 0, roads = [],
      car = \<lparr>car_x = Fin (fst start), car_y = Fin (snd start), car_speed = 2,
             car_path = None, car_segIndex = 0, car_progress = Fin 0\<rparr>,
      isDrawing = False, drawStart = (0, 0), mousePos = (0, 0)\<rparr>"

definition resetCar :: "state \<Rightarrow> state" where
  "resetCar st =
     st\<lparr>car := (car st)\<lparr>car_x := Fin (fst start), car_y := Fin (snd start),
                          car_segIndex := 0, car_progress := Fin 0\<rparr>\<rparr>"

text \<open>\<^verbatim>\<open>path[i]\<close>: \<^verbatim>\<open>undefined\<close> beyond the end of the array.\<close>

definition js_nth :: "path \<Rightarrow> nat \<Rightarrow> node option" where
  "js_nth p i = (if i < length p then p ! i else None)"

text \<open>The statement \<^verbatim>\<open>this.progress += this.speed / segLength\<close>.\<close>

definition add_progress :: "Car \<Rightarrow> real \<Rightarrow> Car" where
  "add_progress c segLength =
     c\<lparr>car_progress := js_add (car_progress c) (js_div (Fin (car_speed c)) (Fin segLength))\<rparr>"

text \<open>
  The motion code.  Reading \<^verbatim>\<open>.x\<close> of \<^verbatim>\<open>undefined\<close> is a TypeError.  A path that
  is \<^verbatim>\<open>null\<close> is falsy; an array is truthy.
\<close>

definition Car_update :: "state \<Rightarrow> error + state" where
  "Car_update st =
     (let c = car st in
      case car_path c of
        None \<Rightarrow> Inr st
      | Some p \<Rightarrow>
          if 1 < length p then
            (case js_nth p (car_segIndex c + 1) of
               None \<Rightarrow> Inl TypeError
             | Some nxt \<Rightarrow>
                (case js_nth p (car_segIndex c) of
                   None \<Rightarrow> Inl TypeError
                 | Some cur \<Rightarrow>
                    (let dx = fl_sub (node_x nxt) (node_x cur);
                         dy = fl_sub (node_y nxt) (node_y cur);
                         segLength = hypot dx dy;
                         c1 = add_progress c segLength
                     in if js_ge (car_progress c1) (Fin 1) then
                          (let segIndex = car_segIndex c1 + 1 in
                           if length p - 1 \<le> segIndex then
                             Inr (resetCar (st\<lparr>score := score st + 1,
                                               car := c1\<lparr>car_segIndex := segIndex, car_progress := Fin 0\<rparr>\<rparr>))
                           else
                             Inr (st\<lparr>car := c1\<lparr>car_segIndex := segIndex, car_progress := Fin 0,
                                              car_x := js_add (Fin (node_x cur)) (js_mul (Fin dx) (Fin 0)),
                                              car_y := js_add (Fin (node_y cur)) (js_mul (Fin dy) (Fin 0))\<rparr>\<rparr>))
                        else
                          Inr (st\<lparr>car := c1\<lparr>car_x := js_add (Fin (node_x cur)) (js_mul (Fin dx) (car_progress c1)),
                                           car_y := js_add (Fin (node_y cur)) (js_mul (Fin dy) (car_progress c1))\<rparr>\<rparr>))))
          else Inr st)"

text \<open>\<^verbatim>\<open>updateCar\<close> of game.js: no check of the stored segment index.\<close>

definition updateCar :: "canvas \<Rightarrow> state \<Rightarrow> (error + state) option" where
  "updateCar cv st =
     (case buildGraph cv (roads st) of
        Inl e \<Rightarrow> Some (Inl e)
      | Inr g \<Rightarrow>
         (case findPath g of
            None \<Rightarrow> None
          | Some (Inl e) \<Rightarrow> Some (Inl e)
          | Some (Inr p) \<Rightarrow> Some (Car_update (st\<lparr>car := (car st)\<lparr>car_path := p\<rparr>\<rparr>))))"

text \<open>
  \<^verbatim>\<open>updateCar\<close> of the second script resets index and progress when
  \<^verbatim>\<open>car.segIndex >= car.path.length\<close>, then calls \<^verbatim>\<open>car.update()\<close>.
\<close>

definition updateCar_cls :: "canvas \<Rightarrow> state \<Rightarrow> (error + state) option" where
  "updateCar_cls cv st =
     (case buildGraph_cls cv (roads st) of
        Inl e \<Rightarrow> Some (Inl e)
      | Inr g \<Rightarrow>
         (case findPath_cls g of
            None \<Rightarrow> None
          | Some p \<Rightarrow>
             (let c = (car st)\<lparr>car_path := p\<rparr>;
                  c' = (if (case p of None \<Rightarrow> False
                                | Some ps \<Rightarrow> 1 < length ps \<and> length ps \<le> car_segIndex c)
                        then c\<lparr>car_segIndex := 0, car_progress := Fin 0\<rparr> else c)
              in Some (Car_update (st\<lparr>car := c'\<rparr>)))))"

section \<open>Events\<close>

text \<open>
  The mouse handlers, with the position already relative to the canvas, and the frame
  callback \<^verbatim>\<open>gameLoop\<close>, which calls \<^verbatim>\<open>updateCar\<close> and then draws (drawing changes
  no state and is not modelled).
\<close>

definition mousedown :: "real \<Rightarrow> real \<Rightarrow> state \<Rightarrow> state" where
  "mousedown x y st = st\<lparr>isDrawing := True, drawStart := (x, y)\<rparr>"

definition mousemove :: "real \<Rightarrow> real \<Rightarrow> state \<Rightarrow> state" where
  "mousemove x y st = (if isDrawing st then st\<lparr>mousePos := (x, y)\<rparr> else st)"

definition mouseup :: "real \<Rightarrow> real \<Rightarrow> state \<Rightarrow> state" where
  "mouseup x y st =
     (if isDrawing st then
        (let st' = (if 5 < hypot (fl_sub x (fst (drawStart st))) (fl_sub y (snd (drawStart st)))
                    then st\<lparr>roads := roads st @
                           [\<lparr>road_x1 = fst (drawStart st), road_y1 = snd (drawStart st),
                             road_x2 = x, road_y2 = y\<rparr>]\<rparr>
                    else st)
         in st'\<lparr>isDrawing := False\<rparr>)
      else st)"

datatype event = MouseDown real real | MouseMove real real | MouseUp real real | Frame

fun handle :: "canvas \<Rightarrow> event \<Rightarrow> state \<Rightarrow> (error + state) option" where
  "handle cv (MouseDown x y) st = Some (Inr (mousedown x y st))"
| "handle cv (MouseMove x y) st = Some (Inr (mousemove x y st))"
| "handle cv (MouseUp x y) st = Some (Inr (mouseup x y st))"
| "handle cv Frame st = updateCar cv st"

fun handle_cls :: "canvas \<Rightarrow> event \<Rightarrow> state \<Rightarrow> (error + state) option" where
  "handle_cls cv (MouseDown x y) st = Some (Inr (mousedown x y st))"
| "handle_cls cv (MouseMove x y) st = Some (Inr (mousemove x y st))"
| "handle_cls cv (MouseUp x y) st = Some (Inr (mouseup x y st))"
| "handle_cls cv Frame st = updateCar_cls cv st"

text \<open>A sequence of events; it ends at the first uncaught exception.\<close>

fun run :: "canvas \<Rightarrow> event list \<Rightarrow> state \<Rightarrow> (error + state) option" where
  "run cv [] st = Some (Inr st)"
| "run cv (ev # evs) st =
     (case handle cv ev st of
        None \<Rightarrow> None
      | Some (Inl e) \<Rightarrow> Some (Inl e)
      | Some (Inr st') \<Rightarrow> run cv evs st')"

fun run_cls :: "canvas \<Rightarrow> event list \<Rightarrow> state \<Rightarrow> (error + state) option" where
  "run_cls cv [] st = Some (Inr st)"
| "run_cls cv (ev # evs) st =
     (case handle_cls cv ev st of
        None \<Rightarrow> None
      | Some (Inl e) \<Rightarrow> Some (Inl e)
      | Some (Inr st') \<Rightarrow> run_cls cv evs st')"


section \<open>Properties of rounding\<close>

lemma round_even_error: "\<bar>of_int (round_even y) - y\<bar> \<le> 1 / 2"
  unfolding round_even_def Let_def by (auto simp: abs_le_iff)

lemma round_even_of_int [simp]: "round_even (of_int i) = i"
  by (simp add: round_even_def)

lemma round_even_minus: "round_even (- y) = - round_even y"
proof (cases "y = of_int \<lfloor>y\<rfloor>")
  case True
  then obtain i where "y = of_int i" by metis
  then show ?thesis by (simp flip: of_int_minus)
next
  case False
  then have fm: "\<lfloor>- y\<rfloor> = - \<lfloor>y\<rfloor> - 1"
    by (metis floor_minus ceiling_altdef minus_diff_eq diff_minus_eq_add uminus_add_conv_diff add.commute)
  have r: "0 < y - of_int \<lfloor>y\<rfloor>" "y - of_int \<lfloor>y\<rfloor> < 1"
    using False by linarith+
  show ?thesis
    unfolding round_even_def Let_def fm using r by (auto simp: algebra_simps) 
qed

lemma round_even_ge_even:
  assumes "of_int n - 1 / 2 \<le> y" and "even n"
  shows "n \<le> round_even y"
proof (cases "of_int n \<le> y")
  case True
  then have "n \<le> \<lfloor>y\<rfloor>" by (simp add: le_floor_iff)
  then show ?thesis unfolding round_even_def Let_def by auto
next
  case False
  then have f: "\<lfloor>y\<rfloor> = n - 1" using assms(1) by (intro floor_unique) auto
  have "1 / 2 \<le> y - of_int \<lfloor>y\<rfloor>" using assms(1) f by simp
  moreover have "odd \<lfloor>y\<rfloor>" using f assms(2) by simp
  ultimately show ?thesis unfolding round_even_def Let_def f by auto
qed

lemma pow2_pos [simp]: "0 < pow2 e"
  by (simp add: pow2_def)

lemma pow2_nonneg [simp]: "0 \<le> pow2 e"
  by (simp add: pow2_def)

lemma pow2_nonzero [simp]: "pow2 e \<noteq> 0"
  by (simp add: pow2_def)

lemma pow2_shift: "pow2 (e - 52) = pow2 e / 2 ^ 52"
proof -
  have "pow2 (e - 52) = 2 powr (of_int e - 52)" by (simp add: pow2_def)
  also have "\<dots> = 2 powr of_int e / 2 powr 52" by (rule powr_diff)
  also have "(2::real) powr 52 = 2 ^ 52" by (rule powr_numeral) simp
  finally show ?thesis by (simp only: pow2_def)
qed

lemma pow2_add: "pow2 (a + b) = pow2 a * pow2 b"
  by (simp add: pow2_def powr_add)

lemma pow2_nat: "pow2 (int n) = 2 ^ n"
  by (simp add: pow2_def powr_realpow)

lemma pow2_neg_nat: "pow2 (- int n) = 1 / 2 ^ n"
  by (simp add: pow2_def powr_minus powr_realpow inverse_eq_divide)

lemma pow2_mono: "a \<le> b \<Longrightarrow> pow2 a \<le> pow2 b"
  by (simp add: pow2_def)

lemma fl_zero [simp]: "fl 0 = 0"
  by (simp add: fl_def)

lemma fl_minus: "fl (- x) = - fl x"
  by (simp add: fl_def ulp_exp_def round_even_minus)

lemma floor_log2_le: 
  assumes "x \<noteq> 0"
  shows "pow2 \<lfloor>log 2 \<bar>x\<bar>\<rfloor> \<le> \<bar>x\<bar>"
proof -
  have p: "0 < \<bar>x\<bar>" using assms by simp
  have "of_int \<lfloor>log 2 \<bar>x\<bar>\<rfloor> \<le> log 2 \<bar>x\<bar>" by simp
  then have "(2::real) powr of_int \<lfloor>log 2 \<bar>x\<bar>\<rfloor> \<le> 2 powr log 2 \<bar>x\<bar>"
    by (subst powr_le_cancel_iff) simp_all
  then show ?thesis using p by (simp add: pow2_def)
qed

lemma ulp_le:
  assumes "\<bar>x\<bar> \<le> B" and "pow2 (- 1022) \<le> B" and "x \<noteq> 0"
  shows "pow2 (ulp_exp x) \<le> B / 2 ^ 52"
proof -
  let ?e = "max \<lfloor>log 2 \<bar>x\<bar>\<rfloor> (- 1022)"
  have "pow2 ?e \<le> B"
    using floor_log2_le[OF assms(3)] assms(1,2) by (auto simp: max_def)
  moreover have "pow2 (ulp_exp x) = pow2 ?e / 2 ^ 52"
    unfolding ulp_exp_def by (rule pow2_shift)
  ultimately show ?thesis by (simp add: divide_right_mono)
qed

lemma fl_error:
  assumes "\<bar>x\<bar> \<le> B" and "pow2 (- 1022) \<le> B"
  shows "\<bar>fl x - x\<bar> \<le> B / 2 ^ 53"
proof (cases "x = 0")
  case True
  have "0 \<le> B" using assms(1) by linarith
  then show ?thesis using True by simp
next
  case False
  let ?u = "pow2 (ulp_exp x)"
  have u: "0 < ?u" by simp
  have "fl x - x = ?u * (of_int (round_even (x / ?u)) - x / ?u)"
    using False u by (simp add: fl_def algebra_simps)
  then have "\<bar>fl x - x\<bar> = ?u * \<bar>of_int (round_even (x / ?u)) - x / ?u\<bar>"
    using u by (simp add: abs_mult abs_of_pos)
  also have "\<dots> \<le> ?u * (1 / 2)"
    using round_even_error[of "x / ?u"] by (intro mult_left_mono less_imp_le[OF u])
  also have "\<dots> \<le> (B / 2 ^ 52) * (1 / 2)"
    using ulp_le[OF assms False] by (intro mult_right_mono) auto
  also have "\<dots> = B / 2 ^ 53" by simp
  finally show ?thesis .
qed

lemma fl_binade:
  assumes "pow2 e \<le> \<bar>x\<bar>" and "\<bar>x\<bar> < pow2 (e + 1)" and "- 1022 \<le> e"
  shows "fl x = of_int (round_even (x / pow2 (e - 52))) * pow2 (e - 52)"
proof -
  have pos: "0 < \<bar>x\<bar>" using assms(1) pow2_pos[of e] by linarith
  then have nz: "x \<noteq> 0" by auto
  have "\<lfloor>log 2 \<bar>x\<bar>\<rfloor> = e"
    using assms(1,2) pos by (subst floor_log_eq_powr_iff) (auto simp: pow2_def add.commute)
  then have "ulp_exp x = e - 52" using assms(3) by (simp add: ulp_exp_def)
  then show ?thesis using nz by (simp add: fl_def)
qed

lemma fl_exact:
  fixes k :: nat
  assumes int: "of_int \<lfloor>x * 2 ^ k\<rfloor> = x * 2 ^ k" and small: "\<bar>x\<bar> * 2 ^ k < 2 ^ 53"
    and k: "k \<le> 1074"
  shows "fl x = x"
proof (cases "x = 0")
  case True
  then show ?thesis by simp
next
  case False
  define m where "m = \<lfloor>x * 2 ^ k\<rfloor>"
  define j where "j = ulp_exp x"
  have "x * 2 ^ k = of_int m" unfolding m_def by (rule int[symmetric])
  then have x: "x = of_int m / 2 ^ k" by (simp add: field_simps)
  have pos: "0 < \<bar>x\<bar>" using False by simp
  have "\<bar>x\<bar> < 2 ^ 53 / 2 ^ k" using small by (simp add: field_simps)
  also have "\<dots> = 2 powr (53 - real k)" by (simp add: powr_diff powr_realpow)
  finally have "log 2 \<bar>x\<bar> < 53 - real k"
    using pos by (simp add: log_less_iff)
  then have "\<lfloor>log 2 \<bar>x\<bar>\<rfloor> < 53 - int k"
    by (simp add: floor_less_iff)
  then have jk: "j + int k \<le> 0" using k by (simp add: j_def ulp_exp_def)
  define n where "n = nat (- (j + int k))"
  have jn: "j = - int k + - int n" using jk by (simp add: n_def)
  have pj: "pow2 j = 1 / (2 ^ k * 2 ^ n)"
    unfolding jn pow2_add pow2_neg_nat by simp
  have "x / pow2 j = of_int (m * 2 ^ n)"
    unfolding x pj by simp
  then have "round_even (x / pow2 j) = m * 2 ^ n"
    by (simp only: round_even_of_int)
  then have "fl x = of_int (m * 2 ^ n) * pow2 j"
    using False by (simp add: fl_def j_def)
  also have "\<dots> = x" unfolding x pj by simp
  finally show ?thesis .
qed

lemma fl_of_int: "\<bar>real_of_int i\<bar> < 2 ^ 53 \<Longrightarrow> fl (of_int i) = of_int i"
  by (rule fl_exact[where k = 0]) simp_all

lemma fl_numeral: "(numeral n :: real) < 9007199254740992 \<Longrightarrow> fl (numeral n) = numeral n"
  using fl_of_int[of "numeral n"] by simp

lemma fl_one [simp]: "fl 1 = 1"
  using fl_of_int[of 1] by simp


lemma fl_neg_numeral: "(numeral n :: real) < 9007199254740992 \<Longrightarrow> fl (- numeral n) = - numeral n"
  by (simp add: fl_minus fl_numeral)

text \<open>A number with at most three binary places, below \<open>2 ^ 49\<close>, is a double.\<close>

lemma fl_eighths: "of_int \<lfloor>x * 8\<rfloor> = x * 8 \<Longrightarrow> \<bar>x\<bar> < 562949953421312 \<Longrightarrow> fl x = x"
  by (rule fl_exact[where k = 3]) simp_all

lemma fl_sub_self [simp]: "fl_sub a a = 0"
  by (simp add: fl_sub_def)

lemma fl_sub_commute: "fl_sub a b = - fl_sub b a"
  using fl_minus[of "b - a"] by (simp add: fl_sub_def)

lemma hypot_zero [simp]: "hypot 0 0 = 0"
  by (simp add: hypot_def)

lemma hypot_minus: "hypot (- a) (- b) = hypot a b"
  by (simp add: hypot_def)

lemma hypot_commute: "hypot (fl_sub a b) (fl_sub c d) = hypot (fl_sub b a) (fl_sub d c)"
  using hypot_minus[of "fl_sub b a" "fl_sub d c"] by (simp add: fl_sub_commute[of a b] fl_sub_commute[of c d])

lemma hypot_axis: "hypot 0 b = fl \<bar>b\<bar>" "hypot a 0 = fl \<bar>a\<bar>"
  by (simp_all add: hypot_def)

lemma hypot_upper:
  assumes "a\<^sup>2 + b\<^sup>2 \<le> c\<^sup>2" and "1 \<le> c"
  shows "hypot a b \<le> c + c / 2 ^ 53"
proof -
  have "sqrt (a\<^sup>2 + b\<^sup>2) \<le> sqrt (c\<^sup>2)" using assms(1) by (rule real_sqrt_le_mono)
  then have le: "sqrt (a\<^sup>2 + b\<^sup>2) \<le> c" using assms(2) by simp
  have "\<bar>sqrt (a\<^sup>2 + b\<^sup>2)\<bar> \<le> c" using le by simp
  moreover have "pow2 (- 1022) \<le> c"
    using pow2_mono[of "- 1022" 0] assms(2) by (simp add: pow2_def)
  ultimately have "\<bar>fl (sqrt (a\<^sup>2 + b\<^sup>2)) - sqrt (a\<^sup>2 + b\<^sup>2)\<bar> \<le> c / 2 ^ 53"
    by (rule fl_error)
  with le show ?thesis unfolding hypot_def by linarith
qed

lemma hypot_lower:
  assumes "c\<^sup>2 \<le> a\<^sup>2 + b\<^sup>2" and "1 \<le> c"
  shows "c - c / 2 ^ 53 \<le> hypot a b"
proof -
  let ?x = "sqrt (a\<^sup>2 + b\<^sup>2)"
  have "sqrt (c\<^sup>2) \<le> ?x" using assms(1) by (rule real_sqrt_le_mono)
  then have ge: "c \<le> ?x" using assms(2) by simp
  have "\<bar>?x\<bar> \<le> ?x" using ge assms(2) by simp
  moreover have "pow2 (- 1022) \<le> ?x"
    using pow2_mono[of "- 1022" 0] assms(2) ge by (simp add: pow2_def)
  ultimately have "\<bar>fl ?x - ?x\<bar> \<le> ?x / 2 ^ 53"
    by (rule fl_error)
  then have "?x - ?x / 2 ^ 53 \<le> fl ?x" by linarith
  moreover have "c - c / 2 ^ 53 \<le> ?x - ?x / 2 ^ 53" using ge by (simp add: field_simps)
  ultimately show ?thesis unfolding hypot_def by linarith
qed

text \<open>Comparisons of \<^verbatim>\<open>Math.hypot\<close> with 10 and with 5, away from the two thresholds.\<close>

lemma hypot_near: "a\<^sup>2 + b\<^sup>2 \<le> 81 \<Longrightarrow> (hypot a b < 10) = True"
  using hypot_upper[of a b 9] by simp

lemma hypot_far: "121 \<le> a\<^sup>2 + b\<^sup>2 \<Longrightarrow> (hypot a b < 10) = False"
  using hypot_lower[of 11 a b] by simp

lemma hypot_long: "36 \<le> a\<^sup>2 + b\<^sup>2 \<Longrightarrow> (5 < hypot a b) = True"
  using hypot_lower[of 6 a b] by simp

lemma hypot_short: "a\<^sup>2 + b\<^sup>2 \<le> 16 \<Longrightarrow> (5 < hypot a b) = False"
  using hypot_upper[of a b 4] by simp


text \<open>
  At the threshold itself: a sum of squares within half a unit in the last place below
  \<open>10\<close> has the square root rounded up to \<open>10\<close>.
\<close>

lemma hypot_edge:
  assumes "(10 - 1 / 2 ^ 50)\<^sup>2 \<le> a\<^sup>2 + b\<^sup>2"
  shows "10 \<le> hypot a b"
proof (cases "a\<^sup>2 + b\<^sup>2 < 16\<^sup>2")
  case True
  let ?x = "sqrt (a\<^sup>2 + b\<^sup>2)"
  have "sqrt ((10 - 1 / 2 ^ 50)\<^sup>2) \<le> ?x" using assms by (rule real_sqrt_le_mono)
  then have lo: "10 - 1 / 2 ^ 50 \<le> ?x" by simp
  have "?x < sqrt (16\<^sup>2)" using True by (rule real_sqrt_less_mono)
  then have hi: "?x < 16" by simp
  have abs: "\<bar>?x\<bar> = ?x" using lo by simp
  have p3: "pow2 3 = 8" "pow2 (3 + 1) = 16" "pow2 (3 - 52) = 1 / 2 ^ 49"
    using pow2_nat[of 3] pow2_nat[of 4] pow2_neg_nat[of 49] by simp_all
  have "pow2 3 \<le> \<bar>?x\<bar>" "\<bar>?x\<bar> < pow2 (3 + 1)"
    unfolding abs p3 using lo hi by simp_all
  then have f: "fl ?x = of_int (round_even (?x / pow2 (3 - 52))) * pow2 (3 - 52)"
    by (rule fl_binade) simp
  have "of_int (5 * 2 ^ 50) - 1 / 2 \<le> ?x / pow2 (3 - 52)"
    unfolding p3 using lo by simp
  then have "5 * 2 ^ 50 \<le> round_even (?x / pow2 (3 - 52))"
    by (rule round_even_ge_even) simp
  then have "real_of_int (5 * 2 ^ 50) \<le> of_int (round_even (?x / pow2 (3 - 52)))"
    by (rule of_int_le_iff[THEN iffD2])
  then have "real_of_int (5 * 2 ^ 50) * pow2 (3 - 52) \<le> fl ?x"
    unfolding f by (rule mult_right_mono) simp
  then show ?thesis unfolding hypot_def p3 by simp
next
  case False
  then have "16\<^sup>2 \<le> a\<^sup>2 + b\<^sup>2" by simp
  from hypot_lower[OF this] show ?thesis by simp
qed

lemma hypot_at_threshold:
  "(10 - 1 / 2 ^ 50)\<^sup>2 \<le> a\<^sup>2 + b\<^sup>2 \<Longrightarrow> (hypot a b < 10) = False"
  using hypot_edge[of a b] by simp

text \<open>A number with at most 46 binary places, below \<open>128\<close>, is a double.\<close>

lemma fl_46: "of_int \<lfloor>x * 70368744177664\<rfloor> = x * 70368744177664 \<Longrightarrow> \<bar>x\<bar> < 128 \<Longrightarrow> fl x = x"
  by (rule fl_exact[where k = 46]) simp_all

lemmas fl_simps = fl_numeral fl_neg_numeral fl_eighths fl_sub_def

section \<open>Properties of the graph builder\<close>

text \<open>
  The node list of a build: the id of a node is its index, and two different nodes are at
  least the snap threshold apart, in the distance that \<^verbatim>\<open>nearNode\<close> computes.
\<close>

definition node_gap :: "node \<Rightarrow> node \<Rightarrow> real" where
  "node_gap m n = hypot (fl_sub (node_x m) (node_x n)) (fl_sub (node_y m) (node_y n))"

definition nodes_ok :: "node list \<Rightarrow> bool" where
  "nodes_ok ns \<longleftrightarrow>
     (\<forall>i < length ns. node_id (ns ! i) = i) \<and>
     (\<forall>i < length ns. \<forall>j < length ns. i \<noteq> j \<longrightarrow> SNAP_THRESHOLD \<le> node_gap (ns ! i) (ns ! j))"

lemma node_gap_commute: "node_gap m n = node_gap n m"
  unfolding node_gap_def by (rule hypot_commute)

lemma nearNode_Some:
  "nearNode x y ns = Some n \<Longrightarrow>
   n \<in> set ns \<and> hypot (fl_sub (node_x n) x) (fl_sub (node_y n) y) < SNAP_THRESHOLD"
  unfolding nearNode_def by (auto simp: find_Some_iff)

lemma nearNode_None:
  "nearNode x y ns = None \<Longrightarrow> n \<in> set ns \<Longrightarrow>
   SNAP_THRESHOLD \<le> hypot (fl_sub (node_x n) x) (fl_sub (node_y n) y)"
  unfolding nearNode_def by (auto simp: find_None_iff)

lemma nearNode_append: "nearNode x y ns = Some n \<Longrightarrow> nearNode x y (ns @ ms) = Some n"
  unfolding nearNode_def by (induction ns) auto

lemma nodes_ok_snoc:
  assumes ok: "nodes_ok ns" and far: "nearNode x y ns = None"
  shows "nodes_ok (ns @ [\<lparr>node_id = length ns, node_x = x, node_y = y\<rparr>])"
proof -
  let ?n = "\<lparr>node_id = length ns, node_x = x, node_y = y\<rparr>"
  have gap: "SNAP_THRESHOLD \<le> node_gap (ns ! i) ?n" if "i < length ns" for i
    using nearNode_None[OF far, of "ns ! i"] that by (simp add: node_gap_def)
  have ids: "\<forall>i < length (ns @ [?n]). node_id ((ns @ [?n]) ! i) = i"
    using ok by (auto simp: nodes_ok_def nth_append)
  have "SNAP_THRESHOLD \<le> node_gap ((ns @ [?n]) ! i) ((ns @ [?n]) ! j)"
    if "i < length (ns @ [?n])" "j < length (ns @ [?n])" "i \<noteq> j" for i j
  proof (cases "i < length ns")
    case True
    show ?thesis
    proof (cases "j < length ns")
      case True
      with \<open>i < length ns\<close> that ok show ?thesis by (simp add: nodes_ok_def nth_append)
    next
      case False
      with that have "j = length ns" by simp
      with True gap[of i] show ?thesis by (simp add: nth_append)
    qed
  next
    case False
    with that have i: "i = length ns" and j: "j < length ns" by auto
    then show ?thesis using gap[of j] by (simp add: nth_append node_gap_commute)
  qed
  with ids show ?thesis unfolding nodes_ok_def by blast
qed

lemma nearNode_snoc_new:
  "nearNode x y ns = None \<Longrightarrow>
   nearNode x y (ns @ [\<lparr>node_id = k, node_x = x, node_y = y\<rparr>]) = Some \<lparr>node_id = k, node_x = x, node_y = y\<rparr>"
  unfolding nearNode_def by (induction ns) (auto simp: SNAP_THRESHOLD_def)

lemma getOrCreateNode_cls_cases:
  assumes "getOrCreateNode_cls x y ns = (n, ns')"
  shows "(nearNode x y ns = Some n \<and> ns' = ns) \<or>
         (nearNode x y ns = None \<and> n = \<lparr>node_id = length ns, node_x = x, node_y = y\<rparr> \<and> ns' = ns @ [n])"
  using assms by (auto simp: getOrCreateNode_cls_def Let_def split: option.splits)

lemma getOrCreateNode_cls_props:
  assumes "getOrCreateNode_cls x y ns = (n, ns')"
  shows "n \<in> set ns'" and "length ns \<le> length ns'" and "length ns' \<le> Suc (length ns)"
    and "\<exists>ms. ns' = ns @ ms" and "nodes_ok ns \<Longrightarrow> nodes_ok ns'"
    and "nearNode x y ns' = Some n"
  using getOrCreateNode_cls_cases[OF assms]
  by (auto dest: nearNode_Some simp: nodes_ok_snoc nearNode_snoc_new)

lemma getOrCreateNode_via_cls:
  "getOrCreateNode x y (ns, a) =
     (case getOrCreateNode_cls x y ns of
        (n, ns') \<Rightarrow> (n, ns', if nearNode x y ns = None then AList.update (length ns) [] a else a))"
  by (simp add: getOrCreateNode_def getOrCreateNode_cls_def Let_def split: option.splits)


text \<open>
  The adjacency object: every key is the id of a node, and every neighbour entry has its
  mirror entry with the same distance.
\<close>

definition symmetric :: "adjacency \<Rightarrow> bool" where
  "symmetric a \<longleftrightarrow>
     (\<forall>k es e. map_of a k = Some es \<longrightarrow> e \<in> set es \<longrightarrow>
        (\<exists>es'. map_of a (edge_id e) = Some es' \<and> \<lparr>edge_id = k, edge_dist = edge_dist e\<rparr> \<in> set es'))"

definition adj_ok :: "nat \<Rightarrow> adjacency \<Rightarrow> bool" where
  "adj_ok n a \<longleftrightarrow> (\<forall>k es. map_of a k = Some es \<longrightarrow> k < n) \<and> symmetric a"

lemma adj_ok_mono: "adj_ok n a \<Longrightarrow> n \<le> n' \<Longrightarrow> adj_ok n' a"
  unfolding adj_ok_def by (meson less_le_trans)

lemma adj_ok_empty: "adj_ok n []"
  by (simp add: adj_ok_def symmetric_def)

lemma adj_ok_fresh:
  assumes "adj_ok n a" and "map_of a k = None" and "k < n'" and "n \<le> n'"
  shows "adj_ok n' (AList.update k [] a)"
proof -
  have keys: "\<And>j es. map_of a j = Some es \<Longrightarrow> j < n" and sym: "symmetric a"
    using assms(1) by (auto simp: adj_ok_def)
  have "symmetric (AList.update k [] a)"
    unfolding symmetric_def
  proof (intro allI impI)
    fix j es e
    assume look: "map_of (AList.update k [] a) j = Some es" and mem: "e \<in> set es"
    then have jk: "j \<noteq> k" and old: "map_of a j = Some es"
      by (auto simp: update_conv' split: if_splits)
    from sym old mem obtain es' where
      p: "map_of a (edge_id e) = Some es'" "\<lparr>edge_id = j, edge_dist = edge_dist e\<rparr> \<in> set es'"
      unfolding symmetric_def by blast
    with assms(2) have "edge_id e \<noteq> k" by auto
    with p show "\<exists>es'. map_of (AList.update k [] a) (edge_id e) = Some es' \<and>
        \<lparr>edge_id = j, edge_dist = edge_dist e\<rparr> \<in> set es'"
      by (simp add: update_conv')
  qed
  moreover have "\<forall>j es. map_of (AList.update k [] a) j = Some es \<longrightarrow> j < n'"
    using keys assms(3,4) by (auto simp: update_conv' split: if_splits dest!: keys)
  ultimately show ?thesis by (simp add: adj_ok_def)
qed

lemma adj_ok_ensure: "adj_ok n a \<Longrightarrow> k < n \<Longrightarrow> adj_ok n (ensure_adj k a)"
  by (auto simp: ensure_adj_def adj_ok_fresh split: option.splits)

lemma ensure_adj_lookup:
  "map_of (ensure_adj k a) j = (if j = k \<and> map_of a k = None then Some [] else map_of a j)"
  by (auto simp: ensure_adj_def update_conv' split: option.splits)

lemma ensure_adj_same: "map_of (ensure_adj k a) k \<noteq> None"
  by (cases "map_of a k") (simp_all add: ensure_adj_lookup)

lemma ensure_adj_keeps: "map_of a j \<noteq> None \<Longrightarrow> map_of (ensure_adj k a) j \<noteq> None"
  by (cases "map_of a k") (simp_all add: ensure_adj_lookup)

lemma push_adj_Some:
  "map_of a k = Some es \<Longrightarrow> push_adj k e a = Inr (AList.update k (es @ [e]) a)"
  by (simp add: push_adj_def)

lemma two_push:
  assumes ok: "adj_ok n a" and k1: "map_of a k1 = Some es1" and k2: "map_of a k2 = Some es2"
  shows "\<exists>a3 a4. push_adj k1 \<lparr>edge_id = k2, edge_dist = d\<rparr> a = Inr a3 \<and>
           push_adj k2 \<lparr>edge_id = k1, edge_dist = d\<rparr> a3 = Inr a4 \<and> adj_ok n a4 \<and>
           (\<forall>k. (map_of a4 k = None) = (map_of a k = None))"
proof -
  let ?e1 = "\<lparr>edge_id = k2, edge_dist = d\<rparr>" and ?e2 = "\<lparr>edge_id = k1, edge_dist = d\<rparr>"
  let ?a3 = "AList.update k1 (es1 @ [?e1]) a"
  let ?es2 = "if k2 = k1 then es1 @ [?e1] else es2"
  let ?a4 = "AList.update k2 (?es2 @ [?e2]) ?a3"
  have p1: "push_adj k1 ?e1 a = Inr ?a3" using k1 by (rule push_adj_Some)
  have l3: "map_of ?a3 k2 = Some ?es2" using k2 k1 by (auto simp: update_conv')
  have p2: "push_adj k2 ?e2 ?a3 = Inr ?a4" using l3 by (rule push_adj_Some)
  have m4: "map_of ?a4 = ((map_of a)(k1 \<mapsto> es1 @ [?e1]))(k2 \<mapsto> ?es2 @ [?e2])"
    by (simp add: update_conv')
  have keys: "\<And>j es. map_of a j = Some es \<Longrightarrow> j < n" and sym: "symmetric a"
    using ok by (auto simp: adj_ok_def)
  have grow: "\<exists>es''. map_of ?a4 j = Some es'' \<and> set es \<subseteq> set es''" if "map_of a j = Some es" for j es
    using that k1 k2 unfolding m4 by auto
  have in1: "\<exists>es''. map_of ?a4 k1 = Some es'' \<and> ?e1 \<in> set es''"
    unfolding m4 by auto
  have in2: "\<exists>es''. map_of ?a4 k2 = Some es'' \<and> ?e2 \<in> set es''"
    unfolding m4 by auto
  have "symmetric ?a4"
    unfolding symmetric_def
  proof (intro allI impI)
    fix j es e
    assume look: "map_of ?a4 j = Some es" and mem: "e \<in> set es"
    from look mem consider
      (old) es0 where "map_of a j = Some es0" "e \<in> set es0"
      | (new1) "j = k1" "e = ?e1" | (new2) "j = k2" "e = ?e2"
      using k1 k2 unfolding m4 by (auto split: if_splits)
    then show "\<exists>es'. map_of ?a4 (edge_id e) = Some es' \<and> \<lparr>edge_id = j, edge_dist = edge_dist e\<rparr> \<in> set es'"
    proof cases
      case old
      with sym obtain es' where "map_of a (edge_id e) = Some es'"
        "\<lparr>edge_id = j, edge_dist = edge_dist e\<rparr> \<in> set es'"
        unfolding symmetric_def by blast
      with grow[of "edge_id e" es'] show ?thesis by blast
    next
      case new1
      with in2 show ?thesis by simp
    next
      case new2
      with in1 show ?thesis by simp
    qed
  qed
  moreover have "\<forall>j es. map_of ?a4 j = Some es \<longrightarrow> j < n"
    using keys k1 k2 unfolding m4 by (auto split: if_splits)
  moreover have "\<forall>k. (map_of ?a4 k = None) = (map_of a k = None)"
    using k1 k2 unfolding m4 by auto
  ultimately show ?thesis using p1 p2 unfolding adj_ok_def by blast
qed


lemma nodes_ok_id_less: "nodes_ok ns \<Longrightarrow> n \<in> set ns \<Longrightarrow> node_id n < length ns"
  by (auto simp: nodes_ok_def in_set_conv_nth)

lemma nodes_ok_nth: "nodes_ok ns \<Longrightarrow> n \<in> set ns \<Longrightarrow> ns ! node_id n = n"
  by (auto simp: nodes_ok_def in_set_conv_nth)

definition graph_inv :: "node list \<times> adjacency \<Rightarrow> bool" where
  "graph_inv s \<longleftrightarrow>
     nodes_ok (fst s) \<and> adj_ok (length (fst s)) (snd s) \<and>
     (\<forall>k < length (fst s). map_of (snd s) k \<noteq> None)"

definition graph_inv_cls :: "node list \<times> adjacency \<Rightarrow> bool" where
  "graph_inv_cls s \<longleftrightarrow> nodes_ok (fst s) \<and> adj_ok (length (fst s)) (snd s)"

lemma adj_ok_key_less: "adj_ok n a \<Longrightarrow> map_of a k = Some es \<Longrightarrow> k < n"
  by (auto simp: adj_ok_def)

lemma getOrCreateNode_inv:
  assumes inv: "graph_inv (ns, a)" and call: "getOrCreateNode x y (ns, a) = (n, ns', a')"
  shows "graph_inv (ns', a')" and "getOrCreateNode_cls x y ns = (n, ns')"
proof -
  from call show c: "getOrCreateNode_cls x y ns = (n, ns')"
    by (auto simp: getOrCreateNode_via_cls split: prod.splits)
  from call c have a': "a' = (if nearNode x y ns = None then AList.update (length ns) [] a else a)"
    by (simp add: getOrCreateNode_via_cls)
  from inv have ok: "nodes_ok ns" "adj_ok (length ns) a" "\<forall>k < length ns. map_of a k \<noteq> None"
    by (auto simp: graph_inv_def)
  show "graph_inv (ns', a')"
  proof (cases "nearNode x y ns")
    case None
    with getOrCreateNode_cls_cases[OF c] have ns': "ns' = ns @ [n]" by auto
    have fresh: "map_of a (length ns) = None"
      using adj_ok_key_less[OF ok(2), of "length ns"] by (cases "map_of a (length ns)") auto
    have "adj_ok (length ns') (AList.update (length ns) [] a)"
      using ok(2) fresh by (rule adj_ok_fresh) (simp_all add: ns')
    moreover have "\<forall>k < length ns'. map_of (AList.update (length ns) [] a) k \<noteq> None"
      using ok(3) by (auto simp: ns' update_conv' less_Suc_eq)
    ultimately show ?thesis
      using None a' getOrCreateNode_cls_props(5)[OF c ok(1)] by (simp add: graph_inv_def)
  next
    case (Some m)
    with getOrCreateNode_cls_cases[OF c] have "ns' = ns" by auto
    with Some a' inv show ?thesis by simp
  qed
qed

lemma addRoad_inv:
  assumes inv: "graph_inv s"
  shows "\<exists>s'. addRoad r s = Inr s' \<and> graph_inv s' \<and> length (fst s') \<le> length (fst s) + 2 \<and>
           (\<exists>ms. fst s' = fst s @ ms)"
proof -
  obtain ns a where s: "s = (ns, a)" by (cases s)
  obtain nodeA ns1 a1 where cA: "getOrCreateNode (road_x1 r) (road_y1 r) (ns, a) = (nodeA, ns1, a1)"
    by (cases "getOrCreateNode (road_x1 r) (road_y1 r) (ns, a)")
  obtain nodeB ns2 a2 where cB: "getOrCreateNode (road_x2 r) (road_y2 r) (ns1, a1) = (nodeB, ns2, a2)"
    by (cases "getOrCreateNode (road_x2 r) (road_y2 r) (ns1, a1)")
  have inv1: "graph_inv (ns1, a1)" and clsA: "getOrCreateNode_cls (road_x1 r) (road_y1 r) ns = (nodeA, ns1)"
    using getOrCreateNode_inv[OF inv[unfolded s] cA] by auto
  have inv2: "graph_inv (ns2, a2)" and clsB: "getOrCreateNode_cls (road_x2 r) (road_y2 r) ns1 = (nodeB, ns2)"
    using getOrCreateNode_inv[OF inv1 cB] by auto
  from getOrCreateNode_cls_props[OF clsA] getOrCreateNode_cls_props[OF clsB]
  have memA: "nodeA \<in> set ns2" and memB: "nodeB \<in> set ns2"
    and len: "length ns2 \<le> length ns + 2" and pre: "\<exists>ms. ns2 = ns @ ms"
    by auto
  from inv2 have ok2: "nodes_ok ns2" "adj_ok (length ns2) a2" "\<forall>k < length ns2. map_of a2 k \<noteq> None"
    by (auto simp: graph_inv_def)
  obtain esA esB where look: "map_of a2 (node_id nodeA) = Some esA" "map_of a2 (node_id nodeB) = Some esB"
    using ok2(3) nodes_ok_id_less[OF ok2(1) memA] nodes_ok_id_less[OF ok2(1) memB] by fastforce
  let ?d = "hypot (fl_sub (node_x nodeA) (node_x nodeB)) (fl_sub (node_y nodeA) (node_y nodeB))"
  from two_push[OF ok2(2) look, of ?d] obtain a3 a4 where
    p: "push_adj (node_id nodeA) \<lparr>edge_id = node_id nodeB, edge_dist = ?d\<rparr> a2 = Inr a3"
       "push_adj (node_id nodeB) \<lparr>edge_id = node_id nodeA, edge_dist = ?d\<rparr> a3 = Inr a4"
       "adj_ok (length ns2) a4" "\<forall>k. (map_of a4 k = None) = (map_of a2 k = None)"
    by blast
  have "addRoad r s = Inr (ns2, a4)"
    using cA cB p(1,2) by (simp add: addRoad_def s Let_def)
  moreover have "graph_inv (ns2, a4)"
    using ok2 p(3,4) by (simp add: graph_inv_def)
  ultimately show ?thesis using len pre by (simp add: s)
qed

lemma addRoads_inv:
  "graph_inv s \<Longrightarrow>
   \<exists>s'. addRoads rs s = Inr s' \<and> graph_inv s' \<and> length (fst s') \<le> length (fst s) + 2 * length rs \<and>
        (\<exists>ms. fst s' = fst s @ ms)"
proof (induction rs arbitrary: s)
  case Nil
  then show ?case by simp
next
  case (Cons r rs)
  from addRoad_inv[OF Cons.prems, of r] obtain s1 where
    s1: "addRoad r s = Inr s1" "graph_inv s1" "length (fst s1) \<le> length (fst s) + 2" "\<exists>ms. fst s1 = fst s @ ms"
    by blast
  from Cons.IH[OF s1(2)] obtain s' where
    s': "addRoads rs s1 = Inr s'" "graph_inv s'" "length (fst s') \<le> length (fst s1) + 2 * length rs"
        "\<exists>ms. fst s' = fst s1 @ ms"
    by blast
  have "addRoads (r # rs) s = Inr s'" using s1(1) s'(1) by simp
  moreover have "length (fst s') \<le> length (fst s) + 2 * length (r # rs)" using s1(3) s'(3) by simp
  moreover have "\<exists>ms. fst s' = fst s @ ms" using s1(4) s'(4) by auto
  ultimately show ?case using s'(2) by blast
qed


text \<open>
  The position \<open>(x, y)\<close> resolves to a node of the list, and that node has an adjacency
  entry.
\<close>

definition has_entry :: "node list \<times> adjacency \<Rightarrow> real \<Rightarrow> real \<Rightarrow> bool" where
  "has_entry s x y \<longleftrightarrow> (\<exists>n. nearNode x y (fst s) = Some n \<and> map_of (snd s) (node_id n) \<noteq> None)"

definition extends :: "node list \<times> adjacency \<Rightarrow> node list \<times> adjacency \<Rightarrow> bool" where
  "extends s s' \<longleftrightarrow> (\<exists>ms. fst s' = fst s @ ms) \<and> (\<forall>k. map_of (snd s) k \<noteq> None \<longrightarrow> map_of (snd s') k \<noteq> None)"

lemma extends_refl: "extends s s"
  by (simp add: extends_def)

lemma extends_trans: "extends s s1 \<Longrightarrow> extends s1 s2 \<Longrightarrow> extends s s2"
  by (auto simp: extends_def)

lemma has_entry_extends:
  assumes "has_entry s x y" and "extends s s'"
  shows "has_entry s' x y"
proof -
  from assms(1) obtain n where n: "nearNode x y (fst s) = Some n" "map_of (snd s) (node_id n) \<noteq> None"
    by (auto simp: has_entry_def)
  from assms(2) obtain ms where ms: "fst s' = fst s @ ms"
    and keep: "map_of (snd s) (node_id n) \<noteq> None \<longrightarrow> map_of (snd s') (node_id n) \<noteq> None"
    unfolding extends_def by blast
  have "nearNode x y (fst s') = Some n" using nearNode_append[OF n(1)] ms by simp
  with keep n(2) show ?thesis unfolding has_entry_def by blast
qed

text \<open>
  The identifiers of the nodes that the end points of the roads resolve to.
\<close>

definition road_ids :: "node list \<Rightarrow> road list \<Rightarrow> nat set" where
  "road_ids ns rs =
     {k. \<exists>r \<in> set rs. \<exists>n. node_id n = k \<and>
            (nearNode (road_x1 r) (road_y1 r) ns = Some n \<or> nearNode (road_x2 r) (road_y2 r) ns = Some n)}"

lemma road_ids_Nil: "road_ids ns [] = {}"
  by (simp add: road_ids_def)

lemma road_ids_Cons: "road_ids ns (r # rs) = road_ids ns [r] \<union> road_ids ns rs"
  by (auto simp: road_ids_def)

lemma road_ids_extends:
  assumes "has_entry s (road_x1 r) (road_y1 r)" and "has_entry s (road_x2 r) (road_y2 r)"
    and "extends s s'"
  shows "road_ids (fst s') [r] = road_ids (fst s) [r]"
proof -
  from assms(1) obtain n1 where n1: "nearNode (road_x1 r) (road_y1 r) (fst s) = Some n1"
    by (auto simp: has_entry_def)
  from assms(2) obtain n2 where n2: "nearNode (road_x2 r) (road_y2 r) (fst s) = Some n2"
    by (auto simp: has_entry_def)
  from assms(3) obtain ms where ms: "fst s' = fst s @ ms"
    unfolding extends_def by blast
  have "nearNode (road_x1 r) (road_y1 r) (fst s') = Some n1"
       "nearNode (road_x2 r) (road_y2 r) (fst s') = Some n2"
    using nearNode_append[OF n1] nearNode_append[OF n2] ms by simp_all
  with n1 n2 show ?thesis by (simp add: road_ids_def)
qed

lemma addRoad_cls_inv:
  assumes inv: "graph_inv_cls s"
  shows "\<exists>s'. addRoad_cls r s = Inr s' \<and> graph_inv_cls s' \<and> length (fst s') \<le> length (fst s) + 2 \<and>
           extends s s' \<and> has_entry s' (road_x1 r) (road_y1 r) \<and> has_entry s' (road_x2 r) (road_y2 r) \<and>
           dom (map_of (snd s')) = dom (map_of (snd s)) \<union> road_ids (fst s') [r]"
proof -
  obtain ns a where s: "s = (ns, a)" by (cases s)
  obtain nodeA ns1 where cA: "getOrCreateNode_cls (road_x1 r) (road_y1 r) ns = (nodeA, ns1)"
    by (cases "getOrCreateNode_cls (road_x1 r) (road_y1 r) ns")
  obtain nodeB ns2 where cB: "getOrCreateNode_cls (road_x2 r) (road_y2 r) ns1 = (nodeB, ns2)"
    by (cases "getOrCreateNode_cls (road_x2 r) (road_y2 r) ns1")
  from inv have ok: "nodes_ok ns" "adj_ok (length ns) a"
    by (auto simp: graph_inv_cls_def s)
  have ok1: "nodes_ok ns1" using getOrCreateNode_cls_props(5)[OF cA ok(1)] .
  have ok2: "nodes_ok ns2" using getOrCreateNode_cls_props(5)[OF cB ok1] .
  from getOrCreateNode_cls_props[OF cA] getOrCreateNode_cls_props[OF cB]
  have memA: "nodeA \<in> set ns2" and memB: "nodeB \<in> set ns2"
    and len: "length ns2 \<le> length ns + 2" "length ns \<le> length ns2" and pre: "\<exists>ms. ns2 = ns @ ms"
    and nearA: "nearNode (road_x1 r) (road_y1 r) ns2 = Some nodeA"
    and nearB: "nearNode (road_x2 r) (road_y2 r) ns2 = Some nodeB"
    by (auto dest: nearNode_append)
  have idA: "node_id nodeA < length ns2" and idB: "node_id nodeB < length ns2"
    using nodes_ok_id_less[OF ok2] memA memB by auto
  let ?a1 = "ensure_adj (node_id nodeA) a"
  let ?a2 = "ensure_adj (node_id nodeB) ?a1"
  have okm: "adj_ok (length ns2) a" using ok(2) len(2) by (rule adj_ok_mono)
  have ok_a2: "adj_ok (length ns2) ?a2"
    using okm idA idB by (simp add: adj_ok_ensure)
  have "map_of ?a2 (node_id nodeA) \<noteq> None" "map_of ?a2 (node_id nodeB) \<noteq> None"
    by (simp_all add: ensure_adj_same ensure_adj_keeps)
  then obtain esA esB where look: "map_of ?a2 (node_id nodeA) = Some esA" "map_of ?a2 (node_id nodeB) = Some esB"
    by blast
  let ?d = "hypot (fl_sub (node_x nodeA) (node_x nodeB)) (fl_sub (node_y nodeA) (node_y nodeB))"
  from two_push[OF ok_a2 look, of ?d] obtain a3 a4 where
    p: "push_adj (node_id nodeA) \<lparr>edge_id = node_id nodeB, edge_dist = ?d\<rparr> ?a2 = Inr a3"
       "push_adj (node_id nodeB) \<lparr>edge_id = node_id nodeA, edge_dist = ?d\<rparr> a3 = Inr a4"
       "adj_ok (length ns2) a4" "\<forall>k. (map_of a4 k = None) = (map_of ?a2 k = None)"
    by blast
  have edge: "addEdge nodeA nodeB a = Inr a4"
    using p(1,2) by (simp add: addEdge_def Let_def)
  have res: "addRoad_cls r s = Inr (ns2, a4)"
    using cA cB edge by (simp add: addRoad_cls_def s)
  have keep: "\<forall>k. map_of a k \<noteq> None \<longrightarrow> map_of a4 k \<noteq> None"
    using p(4) by (simp add: ensure_adj_keeps)
  have eA: "map_of a4 (node_id nodeA) \<noteq> None" and eB: "map_of a4 (node_id nodeB) \<noteq> None"
    using p(4) look by auto
  have "road_ids ns2 [r] = {node_id nodeA, node_id nodeB}"
    using nearA nearB by (auto simp: road_ids_def)
  moreover have "dom (map_of a4) = dom (map_of a) \<union> {node_id nodeA, node_id nodeB}"
    using p(4) by (auto simp: dom_def ensure_adj_lookup split: if_splits)
  ultimately have keys: "dom (map_of a4) = dom (map_of a) \<union> road_ids ns2 [r]"
    by simp
  show ?thesis
    using res ok2 p(3) len(1) pre keep nearA nearB eA eB keys
    by (simp add: graph_inv_cls_def s extends_def has_entry_def)
qed

lemma addRoads_cls_inv:
  "graph_inv_cls s \<Longrightarrow>
   \<exists>s'. addRoads_cls rs s = Inr s' \<and> graph_inv_cls s' \<and>
        length (fst s') \<le> length (fst s) + 2 * length rs \<and> extends s s' \<and>
        (\<forall>r \<in> set rs. has_entry s' (road_x1 r) (road_y1 r) \<and> has_entry s' (road_x2 r) (road_y2 r)) \<and>
        dom (map_of (snd s')) = dom (map_of (snd s)) \<union> road_ids (fst s') rs"
proof (induction rs arbitrary: s)
  case Nil
  then show ?case by (simp add: extends_refl road_ids_Nil)
next
  case (Cons r rs)
  from addRoad_cls_inv[OF Cons.prems, of r] obtain s1 where
    s1: "addRoad_cls r s = Inr s1" "graph_inv_cls s1" "length (fst s1) \<le> length (fst s) + 2"
        "extends s s1" "has_entry s1 (road_x1 r) (road_y1 r)" "has_entry s1 (road_x2 r) (road_y2 r)"
        "dom (map_of (snd s1)) = dom (map_of (snd s)) \<union> road_ids (fst s1) [r]"
    by blast
  from Cons.IH[OF s1(2)] obtain s' where
    s': "addRoads_cls rs s1 = Inr s'" "graph_inv_cls s'" "length (fst s') \<le> length (fst s1) + 2 * length rs"
        "extends s1 s'"
        "\<forall>r \<in> set rs. has_entry s' (road_x1 r) (road_y1 r) \<and> has_entry s' (road_x2 r) (road_y2 r)"
        "dom (map_of (snd s')) = dom (map_of (snd s1)) \<union> road_ids (fst s') rs"
    by blast
  have "road_ids (fst s') [r] = road_ids (fst s1) [r]"
    using s1(5,6) s'(4) by (rule road_ids_extends)
  then have keys: "dom (map_of (snd s')) = dom (map_of (snd s)) \<union> road_ids (fst s') (r # rs)"
    using s1(7) s'(6) road_ids_Cons[of "fst s'" r rs] by auto
  have "addRoads_cls (r # rs) s = Inr s'" using s1(1) s'(1) by simp
  moreover have "length (fst s') \<le> length (fst s) + 2 * length (r # rs)" using s1(3) s'(3) by simp
  moreover have "extends s s'" using s1(4) s'(4) by (rule extends_trans)
  moreover have "\<forall>q \<in> set (r # rs). has_entry s' (road_x1 q) (road_y1 q) \<and> has_entry s' (road_x2 q) (road_y2 q)"
    using s1(5,6) s'(4,5) by (auto intro: has_entry_extends)
  ultimately show ?case using s'(2) keys by blast
qed

definition wf_graph :: "graph \<Rightarrow> bool" where
  "wf_graph g \<longleftrightarrow>
     nodes_ok (nodes g) \<and> adj_ok (length (nodes g)) (adj g) \<and>
     startNode g \<in> set (nodes g) \<and> destNode g \<in> set (nodes g)"

lemma anchors_cls:
  assumes "getOrCreateNode_cls (fst start) (snd start) [] = (sn, ns1)"
    and "getOrCreateNode_cls (fst (dest cv)) (snd (dest cv)) ns1 = (dn, ns2)"
  shows "nodes_ok ns2" and "sn \<in> set ns2" and "dn \<in> set ns2" and "length ns2 \<le> 2"
    and "sn = \<lparr>node_id = 0, node_x = fst start, node_y = snd start\<rparr>" and "ns2 \<noteq> []"
    and "ns2 ! 0 = sn"
proof -
  have e: "nodes_ok []" by (simp add: nodes_ok_def)
  from assms(1) show sn: "sn = \<lparr>node_id = 0, node_x = fst start, node_y = snd start\<rparr>"
    by (auto simp: getOrCreateNode_cls_def nearNode_def Let_def)
  from assms(1) have ns1: "ns1 = [sn]"
    by (auto simp: getOrCreateNode_cls_def nearNode_def Let_def)
  from getOrCreateNode_cls_props[OF assms(1)] getOrCreateNode_cls_props[OF assms(2)] e
  show "nodes_ok ns2" "sn \<in> set ns2" "dn \<in> set ns2" "length ns2 \<le> 2"
    by auto
  from getOrCreateNode_cls_props(4)[OF assms(2)] ns1 show "ns2 \<noteq> []" "ns2 ! 0 = sn"
    by auto
qed

lemma buildGraph_cls_ok:
  "\<exists>g. buildGraph_cls cv rs = Inr g \<and> wf_graph g \<and> length (nodes g) \<le> 2 * length rs + 2 \<and>
       startNode g = \<lparr>node_id = 0, node_x = fst start, node_y = snd start\<rparr> \<and>
       (\<forall>r \<in> set rs. has_entry (nodes g, adj g) (road_x1 r) (road_y1 r) \<and>
                       has_entry (nodes g, adj g) (road_x2 r) (road_y2 r)) \<and>
       dom (map_of (adj g)) = road_ids (nodes g) rs"
proof -
  obtain sn ns1 where c1: "getOrCreateNode_cls (fst start) (snd start) [] = (sn, ns1)"
    by (cases "getOrCreateNode_cls (fst start) (snd start) []")
  obtain dn ns2 where c2: "getOrCreateNode_cls (fst (dest cv)) (snd (dest cv)) ns1 = (dn, ns2)"
    by (cases "getOrCreateNode_cls (fst (dest cv)) (snd (dest cv)) ns1")
  note an = anchors_cls[OF c1 c2]
  have "graph_inv_cls (ns2, [])"
    using an(1) by (simp add: graph_inv_cls_def adj_ok_empty)
  from addRoads_cls_inv[OF this, of rs] obtain ns a where
    r: "addRoads_cls rs (ns2, []) = Inr (ns, a)" "graph_inv_cls (ns, a)"
       "length ns \<le> length ns2 + 2 * length rs" "extends (ns2, []) (ns, a)"
       "\<forall>r \<in> set rs. has_entry (ns, a) (road_x1 r) (road_y1 r) \<and> has_entry (ns, a) (road_x2 r) (road_y2 r)"
       "dom (map_of a) = road_ids ns rs"
    by force
  let ?g = "\<lparr>nodes = ns, adj = a, startNode = sn, destNode = dn\<rparr>"
  have "buildGraph_cls cv rs = Inr ?g"
    using c1 c2 r(1) by (simp add: buildGraph_cls_def)
  moreover have "wf_graph ?g"
    using r(2,4) an(2,3) by (auto simp: wf_graph_def graph_inv_cls_def extends_def)
  moreover have "length (nodes ?g) \<le> 2 * length rs + 2"
    using r(3) an(4) by simp
  ultimately show ?thesis using an(5) r(5,6) by auto
qed

lemma buildGraph_ok:
  "\<exists>g. buildGraph cv rs = Inr g \<and> wf_graph g \<and> length (nodes g) \<le> 2 * length rs + 2 \<and>
       startNode g = \<lparr>node_id = 0, node_x = fst start, node_y = snd start\<rparr> \<and>
       (\<forall>k < length (nodes g). map_of (adj g) k \<noteq> None)"
proof -
  obtain sn ns1 a1 where c1: "getOrCreateNode (fst start) (snd start) ([], []) = (sn, ns1, a1)"
    by (cases "getOrCreateNode (fst start) (snd start) ([], [])")
  obtain dn ns2 a2 where c2: "getOrCreateNode (fst (dest cv)) (snd (dest cv)) (ns1, a1) = (dn, ns2, a2)"
    by (cases "getOrCreateNode (fst (dest cv)) (snd (dest cv)) (ns1, a1)")
  have i0: "graph_inv ([], [])"
    by (simp add: graph_inv_def nodes_ok_def adj_ok_empty)
  note g1 = getOrCreateNode_inv[OF i0 c1]
  note g2 = getOrCreateNode_inv[OF g1(1) c2]
  note an = anchors_cls[OF g1(2) g2(2)]
  from addRoads_inv[OF g2(1), of rs] obtain ns a where
    r: "addRoads rs (ns2, a2) = Inr (ns, a)" "graph_inv (ns, a)"
       "length ns \<le> length ns2 + 2 * length rs" "\<exists>ms. ns = ns2 @ ms"
    by force
  let ?g = "\<lparr>nodes = ns, adj = a, startNode = sn, destNode = dn\<rparr>"
  have "buildGraph cv rs = Inr ?g"
    using c1 c2 r(1) by (simp add: buildGraph_def)
  moreover have "wf_graph ?g"
    using r(2,4) an(2,3) by (auto simp: wf_graph_def graph_inv_def)
  moreover have "length (nodes ?g) \<le> 2 * length rs + 2"
    using r(3) an(4) by simp
  moreover have "\<forall>k < length (nodes ?g). map_of (adj ?g) k \<noteq> None"
    using r(2) by (simp add: graph_inv_def)
  ultimately show ?thesis using an(5) by auto
qed


subsection \<open>A concrete canvas and road\<close>

definition canvas0 :: canvas where
  "canvas0 = \<lparr>canvas_width = 800, canvas_height = 600\<rparr>"

definition road0 :: road where
  "road0 = \<lparr>road_x1 = 82, road_y1 = 79, road_x2 = 718, road_y2 = 523\<rparr>"

lemmas build_simps =
  buildGraph_def buildGraph_cls_def getOrCreateNode_def getOrCreateNode_cls_def nearNode_def
  addRoad_def addRoad_cls_def addEdge_def ensure_adj_def push_adj_def start_def dest_def
  SNAP_THRESHOLD_def hypot_near hypot_far fl_simps Let_def


section \<open>Properties of the path finder\<close>

text \<open>
  The graph as a relation on node ids: \<open>v\<close> is adjacent to \<open>u\<close> when it is in the
  neighbour list of \<open>u\<close>.  A walk of \<open>n\<close> edges from \<open>u\<close> to \<open>v\<close> is
  \<open>(u, v) \<in> edges a ^^ n\<close>.
\<close>

definition adjacent :: "adjacency \<Rightarrow> nat \<Rightarrow> nat \<Rightarrow> bool" where
  "adjacent a u v \<longleftrightarrow> v \<in> edge_id ` set (neighbors_cls a u)"

definition edges :: "adjacency \<Rightarrow> (nat \<times> nat) set" where
  "edges a = {(u, v). adjacent a u v}"

lemma expand_spec:
  "expand u es (cf, q) = (cf', q') \<Longrightarrow>
   \<exists>new. q' = q @ new \<and> set new = edge_id ` set es - dom cf \<and>
         (\<forall>w. cf' w = (if w \<in> set new then Some (Some u) else cf w))"
proof (induction es arbitrary: cf q)
  case Nil
  then show ?case by auto
next
  case (Cons e es)
  show ?case
  proof (cases "cf (edge_id e) = None")
    case True
    let ?cf1 = "cf(edge_id e \<mapsto> Some u)"
    from Cons.prems True have "expand u es (?cf1, q @ [edge_id e]) = (cf', q')" by simp
    from Cons.IH[OF this] obtain new1 where
      n1: "q' = (q @ [edge_id e]) @ new1" "set new1 = edge_id ` set es - dom ?cf1"
          "\<forall>w. cf' w = (if w \<in> set new1 then Some (Some u) else ?cf1 w)"
      by blast
    let ?new = "edge_id e # new1"
    have "q' = q @ ?new" using n1(1) by simp
    moreover have "set ?new = edge_id ` set (e # es) - dom cf"
      using n1(2) True by (auto simp: dom_def)
    moreover have "\<forall>w. cf' w = (if w \<in> set ?new then Some (Some u) else cf w)"
      using n1(3) by auto
    ultimately show ?thesis by blast
  next
    case False
    with Cons.prems have "expand u es (cf, q) = (cf', q')" by (simp del: not_None_eq)
    from Cons.IH[OF this] obtain new where
      n: "q' = q @ new" "set new = edge_id ` set es - dom cf"
         "\<forall>w. cf' w = (if w \<in> set new then Some (Some u) else cf w)"
      by blast
    have "set new = edge_id ` set (e # es) - dom cf"
      using n(2) False by (auto simp: dom_def)
    with n(1,3) show ?thesis by blast
  qed
qed

text \<open>
  The invariant of the search loop, with the level \<open>lev\<close> of every visited id as a ghost
  value: predecessor links go one level down and along an edge, the queue is sorted by
  level and spans at most two levels, and an id that has left the queue is not the
  destination, has all its neighbours visited, and is no deeper than any id in the queue.
\<close>

definition bfs_inv ::
  "adjacency \<Rightarrow> nat \<Rightarrow> nat \<Rightarrow> (nat \<Rightarrow> nat) \<Rightarrow> cameFrom \<Rightarrow> nat list \<Rightarrow> bool" where
  "bfs_inv a s d lev cf q \<longleftrightarrow>
     cf s = Some None \<and> lev s = 0 \<and>
     (\<forall>v u. cf v = Some (Some u) \<longrightarrow> cf u \<noteq> None \<and> adjacent a u v \<and> lev v = Suc (lev u)) \<and>
     (\<forall>v. cf v = Some None \<longrightarrow> v = s) \<and>
     (\<forall>v \<in> set q. cf v \<noteq> None) \<and>
     sorted (map lev q) \<and> (\<forall>v \<in> set q. lev v \<le> Suc (lev (hd q))) \<and>
     (\<forall>u w. cf u \<noteq> None \<longrightarrow> u \<notin> set q \<longrightarrow> adjacent a u w \<longrightarrow> cf w \<noteq> None \<and> lev w \<le> Suc (lev u)) \<and>
     (\<forall>u. cf u \<noteq> None \<longrightarrow> u \<notin> set q \<longrightarrow> u \<noteq> d \<and> (\<forall>v \<in> set q. lev u \<le> lev v))"

lemma bfs_inv_init: "bfs_inv a s d (\<lambda>k. 0) ((\<lambda>k. None)(s \<mapsto> None)) [s]"
  by (simp add: bfs_inv_def)

lemma bfs_inv_step:
  assumes inv: "bfs_inv a s d lev cf (u # q)" and ud: "u \<noteq> d"
    and ex: "expand u (neighbors_cls a u) (cf, q) = (cf', q')"
  shows "\<exists>lev'. bfs_inv a s d lev' cf' q'"
proof -
  from expand_spec[OF ex] obtain new where
    q': "q' = q @ new" and new: "set new = edge_id ` set (neighbors_cls a u) - dom cf"
    and cf': "\<And>w. cf' w = (if w \<in> set new then Some (Some u) else cf w)"
    by blast
  define lev' where "lev' = (\<lambda>w. if w \<in> set new then Suc (lev u) else lev w)"
  have i1: "cf s = Some None" "lev s = 0"
    using inv unfolding bfs_inv_def by blast+
  have i2: "\<And>v p. cf v = Some (Some p) \<Longrightarrow> cf p \<noteq> None \<and> adjacent a p v \<and> lev v = Suc (lev p)"
    using inv unfolding bfs_inv_def by blast
  have i3: "\<And>v. cf v = Some None \<Longrightarrow> v = s"
    using inv unfolding bfs_inv_def by blast
  have i4: "\<And>v. v \<in> set (u # q) \<Longrightarrow> cf v \<noteq> None"
    using inv unfolding bfs_inv_def by blast
  have i5a: "sorted (map lev (u # q))"
    using inv unfolding bfs_inv_def by blast
  have "\<forall>v \<in> set (u # q). lev v \<le> Suc (lev (hd (u # q)))"
    using inv unfolding bfs_inv_def by blast
  then have i5b: "\<And>v. v \<in> set (u # q) \<Longrightarrow> lev v \<le> Suc (lev u)"
    by auto
  note i5 = i5a i5b
  have i6: "\<And>x w. cf x \<noteq> None \<Longrightarrow> x \<notin> set (u # q) \<Longrightarrow> adjacent a x w \<Longrightarrow> cf w \<noteq> None \<and> lev w \<le> Suc (lev x)"
    using inv unfolding bfs_inv_def by blast
  have i7: "\<And>x. cf x \<noteq> None \<Longrightarrow> x \<notin> set (u # q) \<Longrightarrow> x \<noteq> d \<and> (\<forall>v \<in> set (u # q). lev x \<le> lev v)"
    using inv unfolding bfs_inv_def by blast
  have f1: "\<And>w. w \<in> set new \<Longrightarrow> cf w = None" using new by (auto simp: dom_def)
  have f2: "\<And>w. w \<in> set new \<Longrightarrow> adjacent a u w" using new by (auto simp: adjacent_def)
  have f3: "\<And>w. adjacent a u w \<Longrightarrow> cf w \<noteq> None \<or> w \<in> set new"
    using new by (auto simp: adjacent_def dom_def)
  have f5: "cf u \<noteq> None" using i4 by simp
  have f6: "\<And>v. v \<in> set q \<Longrightarrow> lev u \<le> lev v" using i5(1) by auto
  have old: "\<And>w. cf w \<noteq> None \<Longrightarrow> w \<notin> set new" using f1 by auto
  have lev_old: "\<And>w. cf w \<noteq> None \<Longrightarrow> lev' w = lev w" using old by (simp add: lev'_def)
  have lev_new: "\<And>w. w \<in> set new \<Longrightarrow> lev' w = Suc (lev u)" by (simp add: lev'_def)
  have c1: "cf' s = Some None \<and> lev' s = 0"
    using i1 old[of s] by (simp add: cf' lev'_def)
  have c2: "cf' v = Some (Some p) \<longrightarrow> cf' p \<noteq> None \<and> adjacent a p v \<and> lev' v = Suc (lev' p)" for v p
  proof (cases "v \<in> set new")
    case True
    show ?thesis
    proof
      assume "cf' v = Some (Some p)"
      with True have "p = u" by (simp add: cf')
      moreover have "cf' u \<noteq> None" using f5 old[OF f5] by (simp add: cf')
      moreover have "lev' v = Suc (lev' u)" using lev_new[OF True] lev_old[OF f5] by simp
      ultimately show "cf' p \<noteq> None \<and> adjacent a p v \<and> lev' v = Suc (lev' p)"
        using f2[OF True] by simp
    qed
  next
    case False
    show ?thesis
    proof
      assume "cf' v = Some (Some p)"
      with False have v: "cf v = Some (Some p)" by (simp add: cf')
      from i2[OF v] have p: "cf p \<noteq> None" "adjacent a p v" "lev v = Suc (lev p)" by auto
      have "lev' v = lev v" using v lev_old by simp
      moreover have "lev' p = lev p" using p(1) lev_old by simp
      moreover have "cf' p \<noteq> None" using p(1) old by (simp add: cf')
      ultimately show "cf' p \<noteq> None \<and> adjacent a p v \<and> lev' v = Suc (lev' p)" using p by simp
    qed
  qed
  have c3: "cf' v = Some None \<longrightarrow> v = s" for v
    using i3 by (auto simp: cf' split: if_splits)
  have c4: "\<forall>v \<in> set q'. cf' v \<noteq> None"
    using i4 by (auto simp: q' cf')
  have levq: "map lev' q = map lev q"
    using i4 lev_old by simp
  have levn: "map lev' new = map (\<lambda>w. Suc (lev u)) new"
    using lev_new by simp
  have sc: "sorted (map (\<lambda>w. Suc (lev u)) new)"
    by (induction new) auto
  have c5a: "sorted (map lev' q')"
    using i5 sc by (auto simp: q' levq levn sorted_append)
  have c5b: "\<forall>v \<in> set q'. lev' v \<le> Suc (lev' (hd q'))"
  proof (cases q)
    case Nil
    then show ?thesis using lev_new by (cases new) (auto simp: q')
  next
    case (Cons h t)
    have h: "lev' h = lev h" "lev u \<le> lev h" using Cons i4 lev_old f6 by auto
    have "lev' v \<le> Suc (lev u)" if "v \<in> set q'" for v
      using that i5(2) i4 lev_old lev_new by (auto simp: q')
    then show ?thesis using h Cons by (auto simp: q' intro: le_trans)
  qed
  have c6: "cf' x \<noteq> None \<longrightarrow> x \<notin> set q' \<longrightarrow> adjacent a x w \<longrightarrow> cf' w \<noteq> None \<and> lev' w \<le> Suc (lev' x)" for x w
  proof (intro impI)
    assume x: "cf' x \<noteq> None" "x \<notin> set q'" and adj: "adjacent a x w"
    from x have xn: "x \<notin> set new" "x \<notin> set q" and cx: "cf x \<noteq> None"
      by (auto simp: q' cf' split: if_splits)
    have lx: "lev' x = lev x" using cx lev_old by simp
    show "cf' w \<noteq> None \<and> lev' w \<le> Suc (lev' x)"
    proof (cases "x = u")
      case True
      show ?thesis
      proof (cases "w \<in> set new")
        case True
        then show ?thesis using \<open>x = u\<close> lx lev_new by (simp add: cf')
      next
        case False
        with f3 adj \<open>x = u\<close> have cw: "cf w \<noteq> None" by auto
        have "lev w \<le> Suc (lev u)"
        proof (cases "w \<in> set (u # q)")
          case True
          then show ?thesis using i5(2) by simp
        next
          case False
          with i7[OF cw] have "lev w \<le> lev u" by simp
          then show ?thesis by simp
        qed
        then show ?thesis using cw False lev_old \<open>x = u\<close> lx by (simp add: cf')
      qed
    next
      case False
      with xn have "x \<notin> set (u # q)" by simp
      from i6[OF cx this adj] have "cf w \<noteq> None" "lev w \<le> Suc (lev x)" by auto
      then show ?thesis using lx lev_old old by (simp add: cf')
    qed
  qed
  have c7: "cf' x \<noteq> None \<longrightarrow> x \<notin> set q' \<longrightarrow> x \<noteq> d \<and> (\<forall>v \<in> set q'. lev' x \<le> lev' v)" for x
  proof (intro impI)
    assume x: "cf' x \<noteq> None" "x \<notin> set q'"
    from x have xn: "x \<notin> set new" "x \<notin> set q" and cx: "cf x \<noteq> None"
      by (auto simp: q' cf' split: if_splits)
    have lx: "lev' x = lev x" using cx lev_old by simp
    have xu: "x \<noteq> d \<and> lev x \<le> lev u \<and> (\<forall>v \<in> set q. lev x \<le> lev v)"
    proof (cases "x = u")
      case True
      then show ?thesis using ud f6 by simp
    next
      case False
      with xn have "x \<notin> set (u # q)" by simp
      from i7[OF cx this] show ?thesis by simp
    qed
    have "lev' x \<le> lev' v" if "v \<in> set q'" for v
    proof (cases "v \<in> set new")
      case True
      then show ?thesis using xu lx lev_new by simp
    next
      case False
      with that have "v \<in> set q" by (simp add: q')
      then show ?thesis using xu lx lev_old i4 by simp
    qed
    with xu show "x \<noteq> d \<and> (\<forall>v \<in> set q'. lev' x \<le> lev' v)" by blast
  qed
  have "bfs_inv a s d lev' cf' q'"
    unfolding bfs_inv_def using c1 c2 c3 c4 c5a c5b c6 c7 by blast
  then show ?thesis by blast
qed


definition node_of :: "node list \<Rightarrow> nat \<Rightarrow> node option" where
  "node_of ns c = find (\<lambda>n. node_id n = c) ns"

definition chain_ok :: "adjacency \<Rightarrow> (nat \<Rightarrow> nat) \<Rightarrow> cameFrom \<Rightarrow> nat \<Rightarrow> nat \<Rightarrow> nat list \<Rightarrow> bool" where
  "chain_ok a lev cf s v ids \<longleftrightarrow>
     ids \<noteq> [] \<and> hd ids = s \<and> last ids = v \<and> length ids = Suc (lev v) \<and>
     (\<forall>i. Suc i < length ids \<longrightarrow> adjacent a (ids ! i) (ids ! Suc i)) \<and>
     (\<forall>c \<in> set ids. cf c \<noteq> None) \<and> (\<forall>i < length ids. lev (ids ! i) = i)"

lemma chain_ok_single: "cf s \<noteq> None \<Longrightarrow> lev s = 0 \<Longrightarrow> chain_ok a lev cf s s [s]"
  by (simp add: chain_ok_def)

lemma chain_ok_snoc:
  assumes c: "chain_ok a lev cf s u ids" and e: "adjacent a u v" and l: "lev v = Suc (lev u)"
    and v: "cf v \<noteq> None"
  shows "chain_ok a lev cf s v (ids @ [v])"
proof -
  from c have ne: "ids \<noteq> []" and h: "hd ids = s" and la: "last ids = u"
    and len: "length ids = Suc (lev u)"
    and adj: "\<And>i. Suc i < length ids \<Longrightarrow> adjacent a (ids ! i) (ids ! Suc i)"
    and vis: "\<forall>c \<in> set ids. cf c \<noteq> None" and lv: "\<And>i. i < length ids \<Longrightarrow> lev (ids ! i) = i"
    unfolding chain_ok_def by blast+
  have lastn: "ids ! (length ids - 1) = u" using ne la by (simp add: last_conv_nth)
  have a': "adjacent a ((ids @ [v]) ! i) ((ids @ [v]) ! Suc i)" if "Suc i < length (ids @ [v])" for i
  proof (cases "Suc i < length ids")
    case True
    then show ?thesis using adj[OF True] by (simp add: nth_append)
  next
    case False
    with that have i: "Suc i = length ids" by simp
    then have "i = length ids - 1" by simp
    then have "(ids @ [v]) ! i = u" using lastn i by (simp add: nth_append)
    moreover have "(ids @ [v]) ! Suc i = v" using i by (simp add: nth_append)
    ultimately show ?thesis using e by simp
  qed
  have l': "lev ((ids @ [v]) ! i) = i" if "i < length (ids @ [v])" for i
  proof (cases "i < length ids")
    case True
    then show ?thesis using lv by (simp add: nth_append)
  next
    case False
    with that have "i = length ids" by simp
    then show ?thesis using l len by (simp add: nth_append)
  qed
  show ?thesis
    unfolding chain_ok_def using ne h a' l' vis v l len by (auto simp: hd_append)
qed

lemma reconstruct_chain:
  assumes i1: "cf s = Some None" and i0: "lev s = 0"
    and i2: "\<And>v p. cf v = Some (Some p) \<Longrightarrow> cf p \<noteq> None \<and> adjacent a p v \<and> lev v = Suc (lev p)"
    and i3: "\<And>v. cf v = Some None \<Longrightarrow> v = s"
  shows "cf v \<noteq> None \<Longrightarrow>
         \<exists>ids. reconstruct ns cf (Some (Some v)) acc = Some (map (node_of ns) ids @ acc) \<and>
               chain_ok a lev cf s v ids"
proof (induction "lev v" arbitrary: v acc)
  case 0
  then obtain r where r: "cf v = Some r" by auto
  show ?case
  proof (cases r)
    case None
    with r i3 have vs: "v = s" by simp
    have "reconstruct ns cf (Some (Some v)) acc = Some (map (node_of ns) [v] @ acc)"
      using r None by (simp add: reconstruct.simps[of ns cf "Some (Some v)"]
          reconstruct.simps[of ns cf "Some None"] node_of_def)
    then show ?thesis using chain_ok_single[of cf s lev a] i1 i0 vs by blast
  next
    case (Some p)
    with r i2[of v p] 0 show ?thesis by simp
  qed
next
  case (Suc k)
  then obtain r where r: "cf v = Some r" by auto
  show ?case
  proof (cases r)
    case None
    with r i3 have "v = s" by simp
    with Suc i0 show ?thesis by simp
  next
    case (Some p)
    with r have vp: "cf v = Some (Some p)" by simp
    from i2[OF vp] have p: "cf p \<noteq> None" "adjacent a p v" "lev v = Suc (lev p)" by auto
    with Suc have "k = lev p" by simp
    from Suc.hyps(1)[OF this p(1), of "node_of ns v # acc"] obtain ids where
      ids: "reconstruct ns cf (Some (Some p)) (node_of ns v # acc) = Some (map (node_of ns) ids @ node_of ns v # acc)"
        "chain_ok a lev cf s p ids"
      by blast
    have "reconstruct ns cf (Some (Some v)) acc = reconstruct ns cf (Some (Some p)) (node_of ns v # acc)"
      using vp by (simp add: reconstruct.simps[of ns cf "Some (Some v)"] node_of_def)
    then have "reconstruct ns cf (Some (Some v)) acc = Some (map (node_of ns) (ids @ [v]) @ acc)"
      using ids(1) by simp
    moreover have "chain_ok a lev cf s v (ids @ [v])"
      using ids(2) p(2,3) Suc.prems by (rule chain_ok_snoc)
    ultimately show ?thesis by blast
  qed
qed

lemma bfs_inv_minimal:
  assumes inv: "bfs_inv a s d lev cf (d # q)" and walk: "(s, d) \<in> edges a ^^ n"
  shows "lev d \<le> n"
proof -
  have i1: "cf s = Some None" "lev s = 0"
    using inv unfolding bfs_inv_def by blast+
  have i5: "sorted (map lev (d # q))"
    using inv unfolding bfs_inv_def by blast
  have i6: "\<And>x w. cf x \<noteq> None \<Longrightarrow> x \<notin> set (d # q) \<Longrightarrow> adjacent a x w \<Longrightarrow> cf w \<noteq> None \<and> lev w \<le> Suc (lev x)"
    using inv unfolding bfs_inv_def by blast
  have front: "\<And>y. y \<in> set (d # q) \<Longrightarrow> lev d \<le> lev y" using i5 by auto
  have aux: "(s, x) \<in> edges a ^^ m \<Longrightarrow> (cf x \<noteq> None \<and> lev x \<le> m) \<or> lev d \<le> m" for x m
  proof (induction m arbitrary: x)
    case 0
    then show ?case using i1 by simp
  next
    case (Suc m)
    then obtain y where y: "(s, y) \<in> edges a ^^ m" "(y, x) \<in> edges a" by auto
    from Suc.IH[OF y(1)] show ?case
    proof
      assume yv: "cf y \<noteq> None \<and> lev y \<le> m"
      show ?thesis
      proof (cases "y \<in> set (d # q)")
        case True
        from front[OF True] yv show ?thesis by simp
      next
        case False
        from y(2) have "adjacent a y x" by (simp add: edges_def)
        from i6[OF _ False this] yv show ?thesis by auto
      qed
    next
      assume "lev d \<le> m"
      then show ?thesis by simp
    qed
  qed
  from aux[OF walk] show ?thesis by auto
qed

lemma bfs_inv_unreachable:
  assumes inv: "bfs_inv a s d lev cf []"
  shows "(s, d) \<notin> (edges a)\<^sup>*"
proof
  assume r: "(s, d) \<in> (edges a)\<^sup>*"
  have i1: "cf s = Some None"
    using inv unfolding bfs_inv_def by blast
  have i6: "\<And>x w. cf x \<noteq> None \<Longrightarrow> adjacent a x w \<Longrightarrow> cf w \<noteq> None"
    using inv unfolding bfs_inv_def by simp
  have i7: "\<And>x. cf x \<noteq> None \<Longrightarrow> x \<noteq> d"
    using inv unfolding bfs_inv_def by simp
  from r have "cf d \<noteq> None"
  proof (induction rule: rtrancl_induct)
    case base
    then show ?case using i1 by simp
  next
    case (step y z)
    then show ?case using i6[of y z] by (simp add: edges_def)
  qed
  with i7 show False by blast
qed

definition shortest_walk :: "adjacency \<Rightarrow> nat \<Rightarrow> nat \<Rightarrow> nat list \<Rightarrow> bool" where
  "shortest_walk a s d ids \<longleftrightarrow>
     ids \<noteq> [] \<and> hd ids = s \<and> last ids = d \<and>
     (\<forall>i. Suc i < length ids \<longrightarrow> adjacent a (ids ! i) (ids ! Suc i)) \<and>
     distinct ids \<and>
     (\<forall>n. (s, d) \<in> edges a ^^ n \<longrightarrow> length ids \<le> Suc n)"

lemma chain_ok_distinct:
  assumes "chain_ok a lev cf s v ids"
  shows "distinct ids"
proof -
  from assms have lv: "\<And>i. i < length ids \<Longrightarrow> lev (ids ! i) = i"
    unfolding chain_ok_def by blast
  show ?thesis
    unfolding distinct_conv_nth
  proof (intro allI impI)
    fix i j
    assume "i < length ids" "j < length ids" "i \<noteq> j"
    with lv[of i] lv[of j] show "ids ! i \<noteq> ids ! j" by auto
  qed
qed

lemma bfs_cls_correct:
  "bfs_inv a s d lev cf q \<Longrightarrow>
   (\<exists>ids. bfs_cls ns a d q cf = Some (Some (map (node_of ns) ids)) \<and> shortest_walk a s d ids \<and>
          (\<forall>c \<in> set ids. c = s \<or> (\<exists>p. adjacent a p c))) \<or>
   (bfs_cls ns a d q cf = Some None \<and> (s, d) \<notin> (edges a)\<^sup>*)"
proof (induction ns a d q cf arbitrary: lev rule: bfs_cls.induct)
  case (1 ns a d cf)
  then show ?case using bfs_inv_unreachable by simp
next
  case (2 ns a d current queue cf)
  note inv = "2.prems"
  show ?case
  proof (cases "current = d")
    case True
    have i1: "cf s = Some None" "lev s = 0"
      using inv unfolding bfs_inv_def by blast+
    have i2: "\<And>v p. cf v = Some (Some p) \<Longrightarrow> cf p \<noteq> None \<and> adjacent a p v \<and> lev v = Suc (lev p)"
      using inv unfolding bfs_inv_def by blast
    have i3: "\<And>v. cf v = Some None \<Longrightarrow> v = s"
      using inv unfolding bfs_inv_def by blast
    have i4: "cf d \<noteq> None"
      using inv True unfolding bfs_inv_def by simp
    from reconstruct_chain[of cf s lev a d ns "[]", OF i1 i2 i3 i4] obtain ids where
      ids: "reconstruct ns cf (Some (Some d)) [] = Some (map (node_of ns) ids)" "chain_ok a lev cf s d ids"
      by auto
    have res: "bfs_cls ns a d (current # queue) cf = Some (Some (map (node_of ns) ids))"
      using True ids(1) by simp
    have min: "\<forall>n. (s, d) \<in> edges a ^^ n \<longrightarrow> length ids \<le> Suc n"
      using bfs_inv_minimal[OF inv[unfolded True]] ids(2) by (simp add: chain_ok_def)
    have sw: "shortest_walk a s d ids"
      unfolding shortest_walk_def using ids(2) chain_ok_distinct[OF ids(2)] min
      by (simp add: chain_ok_def)
    have "c = s \<or> (\<exists>p. adjacent a p c)" if "c \<in> set ids" for c
    proof -
      from that ids(2) obtain r where r: "cf c = Some r" by (auto simp: chain_ok_def)
      show ?thesis
      proof (cases r)
        case None
        with r i3 show ?thesis by simp
      next
        case (Some p)
        with r i2[of c p] show ?thesis by blast
      qed
    qed
    with res sw show ?thesis by blast
  next
    case False
    obtain cf' q' where ex: "expand current (neighbors_cls a current) (cf, queue) = (cf', q')"
      by (cases "expand current (neighbors_cls a current) (cf, queue)")
    from bfs_inv_step[OF inv False ex] obtain lev' where inv': "bfs_inv a s d lev' cf' q'" by blast
    have "bfs_cls ns a d (current # queue) cf = bfs_cls ns a d q' cf'"
      using False ex by simp
    with "2.IH"[OF False ex[symmetric] inv'] show ?thesis by simp
  qed
qed


lemma adjacent_entry:
  assumes "symmetric a" and "adjacent a p c"
  shows "map_of a c \<noteq> None" and "map_of a p \<noteq> None"
proof -
  from assms(2) obtain e where e: "e \<in> set (neighbors_cls a p)" "c = edge_id e"
    by (auto simp: adjacent_def)
  then obtain es where es: "map_of a p = Some es" "e \<in> set es"
    by (cases "map_of a p") (auto simp: neighbors_cls_def)
  from es show "map_of a p \<noteq> None" by simp
  from assms(1) es e(2) show "map_of a c \<noteq> None"
    unfolding symmetric_def by blast
qed

lemma adjacent_less: "adj_ok n a \<Longrightarrow> adjacent a p c \<Longrightarrow> c < n"
  using adjacent_entry(1)[of a p c] by (auto simp: adj_ok_def)

lemma node_of_nth: "nodes_ok ns \<Longrightarrow> c < length ns \<Longrightarrow> node_of ns c = Some (ns ! c)"
  unfolding node_of_def nodes_ok_def find_Some_iff by (intro exI[of _ c]) auto

lemma bfs_strict:
  "symmetric a \<Longrightarrow> \<forall>k \<in> set q. map_of a k \<noteq> None \<Longrightarrow>
   bfs ns a d q cf = map_option Inr (bfs_cls ns a d q cf)"
proof (induction ns a d q cf rule: bfs_cls.induct)
  case (1 ns a d cf)
  then show ?case by simp
next
  case (2 ns a d current queue cf)
  show ?case
  proof (cases "current = d")
    case True
    then show ?thesis by (simp add: option.map_comp comp_def)
  next
    case False
    note sym = "2.prems"(1)
    from "2.prems" obtain es where es: "map_of a current = Some es" by auto
    then have nb: "neighbors_cls a current = es" by (simp add: neighbors_cls_def)
    obtain cf' q' where ex: "expand current (neighbors_cls a current) (cf, queue) = (cf', q')"
      by (cases "expand current (neighbors_cls a current) (cf, queue)")
    from expand_spec[OF ex] obtain new where
      new: "q' = queue @ new" "set new = edge_id ` set (neighbors_cls a current) - dom cf"
      by blast
    have "map_of a k \<noteq> None" if "k \<in> set q'" for k
    proof (cases "k \<in> set queue")
      case True
      then show ?thesis using "2.prems" by simp
    next
      case False
      with that new have "adjacent a current k" by (auto simp: adjacent_def)
      then show ?thesis using adjacent_entry(1)[OF sym] by blast
    qed
    then have "bfs ns a d q' cf' = map_option Inr (bfs_cls ns a d q' cf')"
      using "2.IH"[OF False ex[symmetric] sym] by blast
    then show ?thesis using False es ex nb by simp
  qed
qed


lemma findPath_cls_wf:
  assumes wf: "wf_graph g"
  shows "(\<exists>ids. findPath_cls g = Some (Some (map (\<lambda>c. Some (nodes g ! c)) ids)) \<and>
            shortest_walk (adj g) (node_id (startNode g)) (node_id (destNode g)) ids \<and>
            (\<forall>c \<in> set ids. c < length (nodes g))) \<or>
         (findPath_cls g = Some None \<and>
            (node_id (startNode g), node_id (destNode g)) \<notin> (edges (adj g))\<^sup>*)"
proof -
  let ?s = "node_id (startNode g)" and ?d = "node_id (destNode g)"
  from wf have ok: "nodes_ok (nodes g)" "adj_ok (length (nodes g)) (adj g)"
    and sl: "?s < length (nodes g)"
    by (auto simp: wf_graph_def nodes_ok_id_less)
  let ?cf = "(\<lambda>k. None)(?s \<mapsto> None)"
  have "(\<exists>ids. bfs_cls (nodes g) (adj g) ?d [?s] ?cf = Some (Some (map (node_of (nodes g)) ids)) \<and>
          shortest_walk (adj g) ?s ?d ids \<and>
          (\<forall>c \<in> set ids. c = ?s \<or> (\<exists>p. adjacent (adj g) p c))) \<or>
        (bfs_cls (nodes g) (adj g) ?d [?s] ?cf = Some None \<and> (?s, ?d) \<notin> (edges (adj g))\<^sup>*)"
    by (rule bfs_cls_correct[OF bfs_inv_init])
  then show ?thesis
  proof
    assume "\<exists>ids. bfs_cls (nodes g) (adj g) ?d [?s] ((\<lambda>k. None)(?s \<mapsto> None)) =
        Some (Some (map (node_of (nodes g)) ids)) \<and> shortest_walk (adj g) ?s ?d ids \<and>
        (\<forall>c \<in> set ids. c = ?s \<or> (\<exists>p. adjacent (adj g) p c))"
    then obtain ids where
      ids: "findPath_cls g = Some (Some (map (node_of (nodes g)) ids))"
        "shortest_walk (adj g) ?s ?d ids" "\<forall>c \<in> set ids. c = ?s \<or> (\<exists>p. adjacent (adj g) p c)"
      unfolding findPath_cls_def by blast
    have less: "\<forall>c \<in> set ids. c < length (nodes g)"
      using ids(3) sl adjacent_less[OF ok(2)] by auto
    then have "map (node_of (nodes g)) ids = map (\<lambda>c. Some (nodes g ! c)) ids"
      using node_of_nth[OF ok(1)] by simp
    with ids(1,2) less show ?thesis by auto
  next
    assume "bfs_cls (nodes g) (adj g) ?d [?s] ((\<lambda>k. None)(?s \<mapsto> None)) = Some None \<and>
        (?s, ?d) \<notin> (edges (adj g))\<^sup>*"
    then show ?thesis unfolding findPath_cls_def by blast
  qed
qed

lemma findPath_wf:
  assumes wf: "wf_graph g" and full: "\<forall>k < length (nodes g). map_of (adj g) k \<noteq> None"
  shows "findPath g = map_option Inr (findPath_cls g)"
proof -
  from wf have "symmetric (adj g)" and "node_id (startNode g) < length (nodes g)"
    by (auto simp: wf_graph_def adj_ok_def nodes_ok_id_less)
  then show ?thesis
    unfolding findPath_def findPath_cls_def using full by (intro bfs_strict) auto
qed

lemmas path_simps = findPath_def findPath_cls_def neighbors_cls_def reconstruct.simps


section \<open>Claims about the graph builder\<close>

text \<open>
  C8: for every road collection, the graph that the builder returns has at most twice the
  number of roads plus two nodes (in both scripts, and the builder does return a graph).
\<close>

theorem node_count_bound:
  "(\<exists>g. buildGraph cv rs = Inr g \<and> length (nodes g) \<le> 2 * length rs + 2) \<and>
   (\<exists>g. buildGraph_cls cv rs = Inr g \<and> length (nodes g) \<le> 2 * length rs + 2)"
  using buildGraph_ok[of cv rs] buildGraph_cls_ok[of cv rs] by blast

text \<open>
  C7: the adjacency mapping of every graph that the builder returns is symmetric: when
  \<open>B\<close> is in the neighbour list of \<open>A\<close> with distance \<open>d\<close>, then \<open>A\<close> is in the
  neighbour list of \<open>B\<close> with the same distance (in both scripts).
\<close>

theorem adjacency_symmetric:
  "(\<exists>g. buildGraph cv rs = Inr g \<and> symmetric (adj g)) \<and>
   (\<exists>g. buildGraph_cls cv rs = Inr g \<and> symmetric (adj g))"
  using buildGraph_ok[of cv rs] buildGraph_cls_ok[of cv rs]
  unfolding wf_graph_def adj_ok_def by blast

theorem adjacency_symmetric_witness:
  "(\<exists>g es. buildGraph canvas0 [road0] = Inr g \<and> map_of (adj g) 1 = Some es \<and>
       \<lparr>edge_id = 0, edge_dist = hypot (- 640) (- 440)\<rparr> \<in> set es) \<and>
   (\<exists>g es. buildGraph_cls canvas0 [road0] = Inr g \<and> map_of (adj g) 1 = Some es \<and>
       \<lparr>edge_id = 0, edge_dist = hypot (- 640) (- 440)\<rparr> \<in> set es)"
proof -
  from adjacency_symmetric[of canvas0 "[road0]"] obtain g h where
    g: "buildGraph canvas0 [road0] = Inr g" "symmetric (adj g)" and
    h: "buildGraph_cls canvas0 [road0] = Inr h" "symmetric (adj h)"
    by blast
  have "map_of (adj g) 0 = Some [\<lparr>edge_id = 1, edge_dist = hypot (- 640) (- 440)\<rparr>]"
    using g(1) by (auto simp: build_simps canvas0_def road0_def)
  with g(2) have "\<exists>es. map_of (adj g) 1 = Some es \<and>
      \<lparr>edge_id = 0, edge_dist = hypot (- 640) (- 440)\<rparr> \<in> set es"
    unfolding symmetric_def by fastforce
  moreover
  have "map_of (adj h) 0 = Some [\<lparr>edge_id = 1, edge_dist = hypot (- 640) (- 440)\<rparr>]"
    using h(1) by (auto simp: build_simps canvas0_def road0_def)
  with h(2) have "\<exists>es. map_of (adj h) 1 = Some es \<and>
      \<lparr>edge_id = 0, edge_dist = hypot (- 640) (- 440)\<rparr> \<in> set es"
    unfolding symmetric_def by fastforce
  ultimately show ?thesis using g(1) h(1) by blast
qed

text \<open>
  C9, as the claim states it, fails in the second script: with no road drawn the builder
  returns both anchors and an adjacency object without any key.
\<close>

theorem anchor_entry_counterexample:
  "buildGraph_cls canvas0 [] =
     Inr \<lparr>nodes = [\<lparr>node_id = 0, node_x = 80, node_y = 80\<rparr>,
                   \<lparr>node_id = 1, node_x = 720, node_y = 520\<rparr>],
          adj = [],
          startNode = \<lparr>node_id = 0, node_x = 80, node_y = 80\<rparr>,
          destNode = \<lparr>node_id = 1, node_x = 720, node_y = 520\<rparr>\<rparr> \<and>
   map_of ([] :: adjacency) 0 = None"
  by (simp add: build_simps canvas0_def)

text \<open>
  C9, amended: in game.js every node of the graph has an adjacency entry. In the second
  script a node of the graph has an adjacency entry exactly when an end point of some road
  resolves to it, and the path finder reads a missing entry as an empty neighbour list.
\<close>

theorem adjacency_entries:
  "(\<exists>g. buildGraph cv rs = Inr g \<and> (\<forall>n \<in> set (nodes g). map_of (adj g) (node_id n) \<noteq> None)) \<and>
   (\<exists>g. buildGraph_cls cv rs = Inr g \<and>
        (\<forall>n \<in> set (nodes g).
            (map_of (adj g) (node_id n) \<noteq> None) =
            (\<exists>r \<in> set rs. nearNode (road_x1 r) (road_y1 r) (nodes g) = Some n \<or>
                            nearNode (road_x2 r) (road_y2 r) (nodes g) = Some n)) \<and>
        (\<forall>k. map_of (adj g) k = None \<longrightarrow> neighbors_cls (adj g) k = []))"
proof -
  from buildGraph_ok[of cv rs] obtain g where
    g: "buildGraph cv rs = Inr g" "wf_graph g" "\<forall>k < length (nodes g). map_of (adj g) k \<noteq> None"
    by blast
  have all: "\<forall>n \<in> set (nodes g). map_of (adj g) (node_id n) \<noteq> None"
    using g(2,3) by (simp add: wf_graph_def nodes_ok_id_less)
  from buildGraph_cls_ok[of cv rs] obtain h where
    h: "buildGraph_cls cv rs = Inr h" "wf_graph h" "dom (map_of (adj h)) = road_ids (nodes h) rs"
    by blast
  have ok: "nodes_ok (nodes h)" using h(2) by (simp add: wf_graph_def)
  have iff: "(map_of (adj h) (node_id n) \<noteq> None) =
             (\<exists>r \<in> set rs. nearNode (road_x1 r) (road_y1 r) (nodes h) = Some n \<or>
                             nearNode (road_x2 r) (road_y2 r) (nodes h) = Some n)"
    if n: "n \<in> set (nodes h)" for n
  proof
    assume "map_of (adj h) (node_id n) \<noteq> None"
    then have "node_id n \<in> dom (map_of (adj h))" by (simp add: dom_def)
    then have "node_id n \<in> road_ids (nodes h) rs" using h(3) by simp
    then obtain r m where r: "r \<in> set rs" "node_id m = node_id n"
        "nearNode (road_x1 r) (road_y1 r) (nodes h) = Some m \<or>
         nearNode (road_x2 r) (road_y2 r) (nodes h) = Some m"
      unfolding road_ids_def by blast
    from r(3) have "m \<in> set (nodes h)" using nearNode_Some by blast
    then have "m = n" using nodes_ok_nth[OF ok] n r(2) by metis
    with r(1,3) show "\<exists>r \<in> set rs. nearNode (road_x1 r) (road_y1 r) (nodes h) = Some n \<or>
                                     nearNode (road_x2 r) (road_y2 r) (nodes h) = Some n"
      by blast
  next
    assume "\<exists>r \<in> set rs. nearNode (road_x1 r) (road_y1 r) (nodes h) = Some n \<or>
                           nearNode (road_x2 r) (road_y2 r) (nodes h) = Some n"
    then have "node_id n \<in> road_ids (nodes h) rs" unfolding road_ids_def by blast
    then have "node_id n \<in> dom (map_of (adj h))" using h(3) by simp
    then show "map_of (adj h) (node_id n) \<noteq> None" by (simp add: dom_def)
  qed
  have "\<forall>k. map_of (adj h) k = None \<longrightarrow> neighbors_cls (adj h) k = []"
    by (simp add: neighbors_cls_def)
  with g(1) all h(1) iff show ?thesis by blast
qed

text \<open>A road from the start anchor to a point sixteen pixels below it.\<close>

definition stub :: road where
  "stub = \<lparr>road_x1 = 80, road_y1 = 80, road_x2 = 80, road_y2 = 96\<rparr>"

theorem adjacency_entries_witness:
  "(\<exists>g. buildGraph canvas0 [stub] = Inr g \<and> map_of (adj g) (node_id (destNode g)) \<noteq> None) \<and>
   (\<exists>g. buildGraph_cls canvas0 [stub] = Inr g \<and>
        map_of (adj g) (node_id (startNode g)) \<noteq> None \<and>
        map_of (adj g) (node_id (destNode g)) = None \<and>
        neighbors_cls (adj g) (node_id (destNode g)) = [])"
proof -
  let ?n0 = "\<lparr>node_id = 0, node_x = 80, node_y = 80\<rparr>"
  let ?n1 = "\<lparr>node_id = 1, node_x = 720, node_y = 520\<rparr>"
  let ?n2 = "\<lparr>node_id = 2, node_x = 80, node_y = 96\<rparr>"
  from adjacency_entries[of canvas0 "[stub]"] obtain g h where
    g: "buildGraph canvas0 [stub] = Inr g" "\<forall>n \<in> set (nodes g). map_of (adj g) (node_id n) \<noteq> None" and
    h: "buildGraph_cls canvas0 [stub] = Inr h"
       "\<forall>n \<in> set (nodes h).
            (map_of (adj h) (node_id n) \<noteq> None) =
            (\<exists>r \<in> set [stub]. nearNode (road_x1 r) (road_y1 r) (nodes h) = Some n \<or>
                               nearNode (road_x2 r) (road_y2 r) (nodes h) = Some n)"
       "\<forall>k. map_of (adj h) k = None \<longrightarrow> neighbors_cls (adj h) k = []"
    by blast
  have "destNode g \<in> set (nodes g)"
    using g(1) by (auto simp: build_simps canvas0_def stub_def)
  with g(2) have "map_of (adj g) (node_id (destNode g)) \<noteq> None" by blast
  moreover
  have hn: "nodes h = [?n0, ?n1, ?n2]" "startNode h = ?n0" "destNode h = ?n1"
    using h(1) by (auto simp: build_simps canvas0_def stub_def)
  have near: "nearNode (road_x1 stub) (road_y1 stub) (nodes h) = Some ?n0"
             "nearNode (road_x2 stub) (road_y2 stub) (nodes h) = Some ?n2"
    unfolding hn by (simp_all add: build_simps stub_def)
  have "map_of (adj h) (node_id (startNode h)) \<noteq> None"
    using h(2) near by (simp add: hn)
  moreover have none: "map_of (adj h) (node_id (destNode h)) = None"
    using h(2) near by (simp add: hn)
  moreover have "neighbors_cls (adj h) (node_id (destNode h)) = []"
    using h(3) none by blast
  ultimately show ?thesis using g(1) h(1) by blast
qed

section \<open>Claims about the path finder\<close>

text \<open>
  What \<^verbatim>\<open>findPath\<close> returns: a sequence of nodes of the graph from the start node to
  the destination node, along edges, with no more hops than any walk between the two.
\<close>

definition is_shortest_path :: "graph \<Rightarrow> path \<Rightarrow> bool" where
  "is_shortest_path g p \<longleftrightarrow>
     (\<exists>ms. p = map Some ms \<and> ms \<noteq> [] \<and> hd ms = startNode g \<and> last ms = destNode g \<and>
        set ms \<subseteq> set (nodes g) \<and>
        (\<forall>i. Suc i < length ms \<longrightarrow> adjacent (adj g) (node_id (ms ! i)) (node_id (ms ! Suc i))) \<and>
        (\<forall>n. (node_id (startNode g), node_id (destNode g)) \<in> edges (adj g) ^^ n \<longrightarrow>
             length ms \<le> Suc n))"

text \<open>Some sequence of edges connects the start node to the destination node.\<close>

definition linked :: "graph \<Rightarrow> bool" where
  "linked g \<longleftrightarrow> (node_id (startNode g), node_id (destNode g)) \<in> (edges (adj g))\<^sup>*"

text \<open>
  Consecutive nodes of a path are at least the snap threshold apart, in the distance that
  \<^verbatim>\<open>nearNode\<close> computes.
\<close>

definition spaced :: "path \<Rightarrow> bool" where
  "spaced p \<longleftrightarrow>
     (\<forall>i. Suc i < length p \<longrightarrow>
        (\<exists>m n. p ! i = Some m \<and> p ! Suc i = Some n \<and> SNAP_THRESHOLD \<le> node_gap m n \<and> 0 < node_gap m n))"

lemma shortest_walk_connected:
  assumes "shortest_walk a s d ids"
  shows "(s, d) \<in> (edges a)\<^sup>*"
proof -
  from assms have ne: "ids \<noteq> []" and h: "hd ids = s" and l: "last ids = d"
    and adj: "\<And>i. Suc i < length ids \<Longrightarrow> adjacent a (ids ! i) (ids ! Suc i)"
    unfolding shortest_walk_def by blast+
  have "i < length ids \<Longrightarrow> (s, ids ! i) \<in> (edges a)\<^sup>*" for i
  proof (induction i)
    case 0
    then show ?case using h ne by (simp add: hd_conv_nth)
  next
    case (Suc i)
    then have "(s, ids ! i) \<in> (edges a)\<^sup>*" by simp
    moreover have "(ids ! i, ids ! Suc i) \<in> edges a" using adj[OF Suc.prems] by (simp add: edges_def)
    ultimately show ?case by (rule rtrancl_into_rtrancl)
  qed
  from this[of "length ids - 1"] ne l show ?thesis by (simp add: last_conv_nth)
qed

lemma wf_path:
  assumes wf: "wf_graph g"
    and sw: "shortest_walk (adj g) (node_id (startNode g)) (node_id (destNode g)) ids"
    and less: "\<forall>c \<in> set ids. c < length (nodes g)"
  shows "is_shortest_path g (map (\<lambda>c. Some (nodes g ! c)) ids)"
    and "spaced (map (\<lambda>c. Some (nodes g ! c)) ids)"
proof -
  let ?ns = "nodes g"
  let ?ms = "map (\<lambda>c. ?ns ! c) ids"
  from wf have ok: "nodes_ok ?ns" and sn: "startNode g \<in> set ?ns" and dn: "destNode g \<in> set ?ns"
    by (auto simp: wf_graph_def)
  from sw have ne: "ids \<noteq> []" and h: "hd ids = node_id (startNode g)"
    and l: "last ids = node_id (destNode g)"
    and adj: "\<And>i. Suc i < length ids \<Longrightarrow> adjacent (adj g) (ids ! i) (ids ! Suc i)"
    and dist: "distinct ids"
    and min: "\<forall>n. (node_id (startNode g), node_id (destNode g)) \<in> edges (adj g) ^^ n \<longrightarrow> length ids \<le> Suc n"
    unfolding shortest_walk_def by blast+
  have idn: "node_id (?ns ! c) = c" if "c < length ?ns" for c
    using ok that by (simp add: nodes_ok_def)
  have nth_ms: "?ms ! i = ?ns ! (ids ! i)" if "i < length ids" for i
    using that by simp
  have p1: "map (\<lambda>c. Some (?ns ! c)) ids = map Some ?ms" by simp
  have p2: "hd ?ms = startNode g"
    using ne h nodes_ok_nth[OF ok sn] by (simp add: hd_map)
  have p3: "last ?ms = destNode g"
    using ne l nodes_ok_nth[OF ok dn] by (simp add: last_map)
  have p4: "set ?ms \<subseteq> set ?ns" using less by auto
  have p5: "adjacent (adj g) (node_id (?ms ! i)) (node_id (?ms ! Suc i))" if "Suc i < length ?ms" for i
  proof -
    from that have i: "Suc i < length ids" by simp
    then have "ids ! i < length ?ns" "ids ! Suc i < length ?ns" using less by auto
    then show ?thesis using adj[OF i] i by (simp add: idn)
  qed
  show "is_shortest_path g (map (\<lambda>c. Some (nodes g ! c)) ids)"
    unfolding is_shortest_path_def
    using p1 ne p2 p3 p4 p5 min by (intro exI[of _ ?ms]) simp
  show "spaced (map (\<lambda>c. Some (nodes g ! c)) ids)"
    unfolding spaced_def
  proof (intro allI impI)
    fix i
    assume "Suc i < length (map (\<lambda>c. Some (nodes g ! c)) ids)"
    then have i: "Suc i < length ids" by simp
    then have lt: "ids ! i < length ?ns" "ids ! Suc i < length ?ns" using less by auto
    have "ids ! i \<noteq> ids ! Suc i"
      using dist i by (simp add: distinct_conv_nth)
    with ok lt have "SNAP_THRESHOLD \<le> node_gap (?ns ! (ids ! i)) (?ns ! (ids ! Suc i))"
      by (simp add: nodes_ok_def)
    then show "\<exists>m n. map (\<lambda>c. Some (nodes g ! c)) ids ! i = Some m \<and>
        map (\<lambda>c. Some (nodes g ! c)) ids ! Suc i = Some n \<and>
        SNAP_THRESHOLD \<le> node_gap m n \<and> 0 < node_gap m n"
      using i by (simp add: SNAP_THRESHOLD_def)
  qed
qed

lemma findPath_cls_result:
  assumes wf: "wf_graph g"
  shows "(\<exists>p. findPath_cls g = Some (Some p) \<and> is_shortest_path g p \<and> spaced p \<and> linked g) \<or>
         (findPath_cls g = Some None \<and> \<not> linked g)"
  using findPath_cls_wf[OF wf]
proof
  assume "\<exists>ids. findPath_cls g = Some (Some (map (\<lambda>c. Some (nodes g ! c)) ids)) \<and>
      shortest_walk (adj g) (node_id (startNode g)) (node_id (destNode g)) ids \<and>
      (\<forall>c \<in> set ids. c < length (nodes g))"
  then obtain ids where
    ids: "findPath_cls g = Some (Some (map (\<lambda>c. Some (nodes g ! c)) ids))"
      "shortest_walk (adj g) (node_id (startNode g)) (node_id (destNode g)) ids"
      "\<forall>c \<in> set ids. c < length (nodes g)"
    by blast
  from wf_path[OF wf ids(2,3)] shortest_walk_connected[OF ids(2)] ids(1)
  show ?thesis by (auto simp: linked_def)
next
  assume "findPath_cls g = Some None \<and>
      (node_id (startNode g), node_id (destNode g)) \<notin> (edges (adj g))\<^sup>*"
  then show ?thesis by (simp add: linked_def)
qed

lemma findPath_result:
  assumes wf: "wf_graph g" and full: "\<forall>k < length (nodes g). map_of (adj g) k \<noteq> None"
  shows "(\<exists>p. findPath g = Some (Inr (Some p)) \<and> is_shortest_path g p \<and> spaced p \<and> linked g) \<or>
         (findPath g = Some (Inr None) \<and> \<not> linked g)"
  using findPath_cls_result[OF wf] by (auto simp: findPath_wf[OF wf full])

text \<open>
  C4: on every graph that the builder returns, \<^verbatim>\<open>findPath\<close> returns either a node
  sequence that begins with the start node, ends with the destination node, steps along
  edges of the graph, and has no more hops than any walk from start to destination; or
  \<^verbatim>\<open>null\<close>, and this exactly when no sequence of edges connects the two (in both
  scripts; in particular the search returns).
\<close>

theorem findPath_shortest:
  "(\<exists>g. buildGraph cv rs = Inr g \<and>
        ((\<exists>p. findPath g = Some (Inr (Some p)) \<and> is_shortest_path g p \<and> linked g) \<or>
         (findPath g = Some (Inr None) \<and> \<not> linked g))) \<and>
   (\<exists>g. buildGraph_cls cv rs = Inr g \<and>
        ((\<exists>p. findPath_cls g = Some (Some p) \<and> is_shortest_path g p \<and> linked g) \<or>
         (findPath_cls g = Some None \<and> \<not> linked g)))"
proof -
  from buildGraph_ok[of cv rs] obtain g where
    g: "buildGraph cv rs = Inr g" "wf_graph g" "\<forall>k < length (nodes g). map_of (adj g) k \<noteq> None"
    by blast
  from buildGraph_cls_ok[of cv rs] obtain h where
    h: "buildGraph_cls cv rs = Inr h" "wf_graph h"
    by blast
  from findPath_result[OF g(2,3)] findPath_cls_result[OF h(2)] g(1) h(1)
  show ?thesis by blast
qed

lemma nodes_ok_gap:
  assumes "nodes_ok ns" and "m \<in> set ns" and "n \<in> set ns" and "m \<noteq> n"
  shows "SNAP_THRESHOLD \<le> node_gap m n"
proof -
  from assms(2,3) obtain i j where "i < length ns" "ns ! i = m" "j < length ns" "ns ! j = n"
    by (auto simp: in_set_conv_nth)
  with assms(1,4) show ?thesis unfolding nodes_ok_def by blast
qed

text \<open>
  C10, amended: in the graph of one build any two distinct nodes are at a computed distance
  (\<^verbatim>\<open>Math.hypot\<close> of the double-precision coordinate differences, which is what
  \<^verbatim>\<open>nearNode\<close> compares with the threshold) of at least the snap threshold, and their
  positions differ; every two consecutive nodes of a path that \<^verbatim>\<open>findPath\<close> returns
  are such nodes, so the length that the motion code computes for a segment is at least
  the threshold and never zero (in both scripts).
\<close>

theorem nodes_apart:
  "(\<exists>g. buildGraph cv rs = Inr g \<and>
        (\<forall>m \<in> set (nodes g). \<forall>n \<in> set (nodes g). m \<noteq> n \<longrightarrow>
            SNAP_THRESHOLD \<le> node_gap m n \<and> (node_x m, node_y m) \<noteq> (node_x n, node_y n)) \<and>
        (\<forall>p. findPath g = Some (Inr (Some p)) \<longrightarrow> spaced p)) \<and>
   (\<exists>g. buildGraph_cls cv rs = Inr g \<and>
        (\<forall>m \<in> set (nodes g). \<forall>n \<in> set (nodes g). m \<noteq> n \<longrightarrow>
            SNAP_THRESHOLD \<le> node_gap m n \<and> (node_x m, node_y m) \<noteq> (node_x n, node_y n)) \<and>
        (\<forall>p. findPath_cls g = Some (Some p) \<longrightarrow> spaced p))"
proof -
  from buildGraph_ok[of cv rs] obtain g where
    g: "buildGraph cv rs = Inr g" "wf_graph g" "\<forall>k < length (nodes g). map_of (adj g) k \<noteq> None"
    by blast
  from buildGraph_cls_ok[of cv rs] obtain h where
    h: "buildGraph_cls cv rs = Inr h" "wf_graph h"
    by blast
  have pos: "(node_x m, node_y m) \<noteq> (node_x n, node_y n)" if "SNAP_THRESHOLD \<le> node_gap m n" for m n
    using that by (auto simp: node_gap_def SNAP_THRESHOLD_def)
  have "\<forall>m \<in> set (nodes g). \<forall>n \<in> set (nodes g). m \<noteq> n \<longrightarrow>
          SNAP_THRESHOLD \<le> node_gap m n \<and> (node_x m, node_y m) \<noteq> (node_x n, node_y n)"
    using g(2) nodes_ok_gap pos unfolding wf_graph_def by blast
  moreover have "\<forall>p. findPath g = Some (Inr (Some p)) \<longrightarrow> spaced p"
    using findPath_result[OF g(2,3)] by auto
  moreover have "\<forall>m \<in> set (nodes h). \<forall>n \<in> set (nodes h). m \<noteq> n \<longrightarrow>
          SNAP_THRESHOLD \<le> node_gap m n \<and> (node_x m, node_y m) \<noteq> (node_x n, node_y n)"
    using h(2) nodes_ok_gap pos unfolding wf_graph_def by blast
  moreover have "\<forall>p. findPath_cls h = Some (Some p) \<longrightarrow> spaced p"
    using findPath_cls_result[OF h(2)] by auto
  ultimately show ?thesis using g(1) h(1) by blast
qed


definition graph0 :: graph where
  "graph0 =
     \<lparr>nodes = [\<lparr>node_id = 0, node_x = 80, node_y = 80\<rparr>,
               \<lparr>node_id = 1, node_x = 720, node_y = 520\<rparr>],
      adj = [(0, [\<lparr>edge_id = 1, edge_dist = hypot (- 640) (- 440)\<rparr>]),
             (1, [\<lparr>edge_id = 0, edge_dist = hypot (- 640) (- 440)\<rparr>])],
      startNode = \<lparr>node_id = 0, node_x = 80, node_y = 80\<rparr>,
      destNode = \<lparr>node_id = 1, node_x = 720, node_y = 520\<rparr>\<rparr>"

definition path0 :: path where
  "path0 = [Some \<lparr>node_id = 0, node_x = 80, node_y = 80\<rparr>,
            Some \<lparr>node_id = 1, node_x = 720, node_y = 520\<rparr>]"

lemma build0: "buildGraph canvas0 [road0] = Inr graph0" "buildGraph_cls canvas0 [road0] = Inr graph0"
  by (simp_all add: build_simps canvas0_def road0_def graph0_def)

lemma find0: "findPath graph0 = Some (Inr (Some path0))" "findPath_cls graph0 = Some (Some path0)"
  by (simp_all add: path_simps graph0_def path0_def)

lemma edge0: "(node_id (startNode graph0), node_id (destNode graph0)) \<in> edges (adj graph0) ^^ 1"
  by (simp add: graph0_def edges_def adjacent_def neighbors_cls_def)

theorem findPath_shortest_witness:
  "(\<exists>ms. findPath graph0 = Some (Inr (Some (map Some ms))) \<and> buildGraph canvas0 [road0] = Inr graph0 \<and>
         hd ms = startNode graph0 \<and> last ms = destNode graph0 \<and> length ms \<le> 2 \<and>
         adjacent (adj graph0) (node_id (ms ! 0)) (node_id (ms ! 1))) \<and>
   (\<exists>ms. findPath_cls graph0 = Some (Some (map Some ms)) \<and> buildGraph_cls canvas0 [road0] = Inr graph0 \<and>
         hd ms = startNode graph0 \<and> last ms = destNode graph0 \<and> length ms \<le> 2 \<and>
         adjacent (adj graph0) (node_id (ms ! 0)) (node_id (ms ! 1)))"
proof -
  from findPath_shortest[of canvas0 "[road0]"] have
    "\<exists>p. findPath graph0 = Some (Inr (Some p)) \<and> is_shortest_path graph0 p"
    "\<exists>p. findPath_cls graph0 = Some (Some p) \<and> is_shortest_path graph0 p"
    by (auto simp: build0 find0)
  then have sp: "is_shortest_path graph0 path0"
    by (simp add: find0)
  then obtain ms where ms: "path0 = map Some ms" "hd ms = startNode graph0" "last ms = destNode graph0"
    "\<forall>i. Suc i < length ms \<longrightarrow> adjacent (adj graph0) (node_id (ms ! i)) (node_id (ms ! Suc i))"
    "\<forall>n. (node_id (startNode graph0), node_id (destNode graph0)) \<in> edges (adj graph0) ^^ n \<longrightarrow>
         length ms \<le> Suc n"
    unfolding is_shortest_path_def by blast
  from ms(5) edge0 have len: "length ms \<le> 2" by fastforce
  have "length ms = 2" using ms(1) by (auto simp: path0_def)
  with ms(4) have "adjacent (adj graph0) (node_id (ms ! 0)) (node_id (ms ! 1))" by simp
  with ms(1,2,3) len show ?thesis using build0 find0 by auto
qed

theorem nodes_apart_witness:
  "buildGraph canvas0 [road0] = Inr graph0 \<and> buildGraph_cls canvas0 [road0] = Inr graph0 \<and>
   SNAP_THRESHOLD \<le> node_gap (startNode graph0) (destNode graph0) \<and>
   findPath graph0 = Some (Inr (Some path0)) \<and> findPath_cls graph0 = Some (Some path0) \<and>
   (\<exists>m n. path0 ! 0 = Some m \<and> path0 ! 1 = Some n \<and> 0 < node_gap m n)"
proof -
  from nodes_apart[of canvas0 "[road0]"] have
    a: "\<forall>m \<in> set (nodes graph0). \<forall>n \<in> set (nodes graph0). m \<noteq> n \<longrightarrow>
          SNAP_THRESHOLD \<le> node_gap m n \<and> (node_x m, node_y m) \<noteq> (node_x n, node_y n)"
    and b: "\<forall>p. findPath graph0 = Some (Inr (Some p)) \<longrightarrow> spaced p"
    by (auto simp: build0)
  have "startNode graph0 \<in> set (nodes graph0)" "destNode graph0 \<in> set (nodes graph0)"
    "startNode graph0 \<noteq> destNode graph0"
    by (simp_all add: graph0_def)
  with a have g: "SNAP_THRESHOLD \<le> node_gap (startNode graph0) (destNode graph0)" by blast
  from b find0 have "spaced path0" by blast
  moreover have "Suc 0 < length path0" by (simp add: path0_def)
  ultimately have "\<exists>m n. path0 ! 0 = Some m \<and> path0 ! 1 = Some n \<and> 0 < node_gap m n"
    unfolding spaced_def by fastforce
  with g show ?thesis using build0 find0 by simp
qed


text \<open>
  The exact distance between two nodes, and a build in which a road leaves the start anchor
  for a point whose exact distance from it is below the threshold while the distance that
  \<^verbatim>\<open>Math.hypot\<close> computes is \<open>10\<close>.
\<close>

definition euclid :: "node \<Rightarrow> node \<Rightarrow> real" where
  "euclid m n = sqrt ((node_x m - node_x n)\<^sup>2 + (node_y m - node_y n)\<^sup>2)"

definition canvas_p :: canvas where
  "canvas_p = \<lparr>canvas_width = 240, canvas_height = 240\<rparr>"

definition node_p :: node where
  "node_p = \<lparr>node_id = 2, node_x = 6197821905247925 / 70368744177664,
             node_y = 6044452180060245 / 70368744177664\<rparr>"

definition road_p :: road where
  "road_p = \<lparr>road_x1 = 80, road_y1 = 80, road_x2 = node_x node_p, road_y2 = node_y node_p\<rparr>"

text \<open>
  C10, as the claim states it, fails: the builder compares the rounded distance with the
  threshold, so it appends a node whose exact Euclidean distance from the start anchor is
  below 10.
\<close>

theorem nodes_apart_counterexample:
  "(\<exists>g. buildGraph canvas_p [road_p] = Inr g \<and>
        nodes g = [\<lparr>node_id = 0, node_x = 80, node_y = 80\<rparr>,
                   \<lparr>node_id = 1, node_x = 160, node_y = 160\<rparr>, node_p]) \<and>
   (\<exists>g. buildGraph_cls canvas_p [road_p] = Inr g \<and>
        nodes g = [\<lparr>node_id = 0, node_x = 80, node_y = 80\<rparr>,
                   \<lparr>node_id = 1, node_x = 160, node_y = 160\<rparr>, node_p]) \<and>
   euclid \<lparr>node_id = 0, node_x = 80, node_y = 80\<rparr> node_p < SNAP_THRESHOLD"
proof -
  have "euclid \<lparr>node_id = 0, node_x = 80, node_y = 80\<rparr> node_p < sqrt (10\<^sup>2)"
    unfolding euclid_def by (rule real_sqrt_less_mono) (simp add: node_p_def power2_eq_square)
  then have "euclid \<lparr>node_id = 0, node_x = 80, node_y = 80\<rparr> node_p < SNAP_THRESHOLD"
    by (simp add: SNAP_THRESHOLD_def)
  moreover have "\<exists>g. buildGraph canvas_p [road_p] = Inr g \<and>
        nodes g = [\<lparr>node_id = 0, node_x = 80, node_y = 80\<rparr>,
                   \<lparr>node_id = 1, node_x = 160, node_y = 160\<rparr>, node_p]"
    by (simp add: build_simps hypot_at_threshold fl_46 canvas_p_def road_p_def node_p_def power2_eq_square)
  moreover have "\<exists>g. buildGraph_cls canvas_p [road_p] = Inr g \<and>
        nodes g = [\<lparr>node_id = 0, node_x = 80, node_y = 80\<rparr>,
                   \<lparr>node_id = 1, node_x = 160, node_y = 160\<rparr>, node_p]"
    by (simp add: build_simps hypot_at_threshold fl_46 canvas_p_def road_p_def node_p_def power2_eq_square)
  ultimately show ?thesis by simp
qed


section \<open>Claims about the vehicle\<close>

lemma Car_update_no_path:
  "car_path (car st) = None \<Longrightarrow> Car_update st = Inr st"
  by (simp add: Car_update_def)

lemma Car_update_short_path:
  "car_path (car st) = Some p \<Longrightarrow> length p \<le> 1 \<Longrightarrow> Car_update st = Inr st"
  by (simp add: Car_update_def)

definition anchor :: node where
  "anchor = \<lparr>node_id = 0, node_x = 80, node_y = 80\<rparr>"

lemma coincident_build:
  assumes "hypot (fl_sub (fst start) (fst (dest cv))) (fl_sub (snd start) (snd (dest cv))) < SNAP_THRESHOLD"
  shows "buildGraph cv [] = Inr \<lparr>nodes = [anchor], adj = [(0, [])], startNode = anchor, destNode = anchor\<rparr>"
    and "buildGraph_cls cv [] = Inr \<lparr>nodes = [anchor], adj = [], startNode = anchor, destNode = anchor\<rparr>"
  using assms
  by (simp_all add: buildGraph_def buildGraph_cls_def getOrCreateNode_def getOrCreateNode_cls_def
      nearNode_def start_def anchor_def Let_def)

lemma coincident_find:
  "findPath \<lparr>nodes = [anchor], adj = [(0, [])], startNode = anchor, destNode = anchor\<rparr> =
     Some (Inr (Some [Some anchor]))"
  "findPath_cls \<lparr>nodes = [anchor], adj = [], startNode = anchor, destNode = anchor\<rparr> =
     Some (Some [Some anchor])"
  by (simp_all add: path_simps anchor_def)

text \<open>
  C1, amended: when the two anchors are closer than the snap threshold (the distance that
  \<^verbatim>\<open>nearNode\<close> computes is below it) and no road is drawn, \<^verbatim>\<open>findPath\<close> returns the single-node path, and a tick leaves the score and
  the vehicle as they are (only the stored path changes): a path with fewer than two
  nodes is idle.
\<close>

theorem coincident_anchors_idle:
  assumes near: "hypot (fl_sub (fst start) (fst (dest cv))) (fl_sub (snd start) (snd (dest cv))) < SNAP_THRESHOLD"
    and none: "roads st = []"
  shows "(\<exists>g. buildGraph cv [] = Inr g \<and> findPath g = Some (Inr (Some [Some anchor])) \<and>
              updateCar cv st = Some (Inr (st\<lparr>car := (car st)\<lparr>car_path := Some [Some anchor]\<rparr>\<rparr>))) \<and>
         (\<exists>g. buildGraph_cls cv [] = Inr g \<and> findPath_cls g = Some (Some [Some anchor]) \<and>
              updateCar_cls cv st = Some (Inr (st\<lparr>car := (car st)\<lparr>car_path := Some [Some anchor]\<rparr>\<rparr>)))"
proof -
  let ?st' = "st\<lparr>car := (car st)\<lparr>car_path := Some [Some anchor]\<rparr>\<rparr>"
  have idle: "Car_update ?st' = Inr ?st'"
    by (rule Car_update_short_path[of _ "[Some anchor]"]) simp_all
  have "updateCar cv st = Some (Inr ?st')"
    using idle by (simp add: updateCar_def none coincident_build[OF near] coincident_find)
  moreover have "updateCar_cls cv st = Some (Inr ?st')"
    using idle by (simp add: updateCar_cls_def none coincident_build[OF near] coincident_find Let_def)
  ultimately show ?thesis
    using coincident_build[OF near] coincident_find by simp
qed

definition canvas1 :: canvas where
  "canvas1 = \<lparr>canvas_width = 163, canvas_height = 164\<rparr>"

lemma near1: "hypot (fl_sub (fst start) (fst (dest canvas1))) (fl_sub (snd start) (snd (dest canvas1))) < SNAP_THRESHOLD"
  by (simp add: start_def dest_def canvas1_def SNAP_THRESHOLD_def fl_simps hypot_near)

theorem coincident_anchors_idle_witness:
  "hypot (fl_sub (fst start) (fst (dest canvas1))) (fl_sub (snd start) (snd (dest canvas1))) < SNAP_THRESHOLD \<and>
   roads initial = [] \<and>
   updateCar canvas1 initial = Some (Inr (initial\<lparr>car := (car initial)\<lparr>car_path := Some [Some anchor]\<rparr>\<rparr>)) \<and>
   updateCar_cls canvas1 initial = Some (Inr (initial\<lparr>car := (car initial)\<lparr>car_path := Some [Some anchor]\<rparr>\<rparr>))"
proof -
  have r: "roads initial = []" by (simp add: initial_def)
  from coincident_anchors_idle[OF near1 r] near1 r show ?thesis by blast
qed

text \<open>
  C1 as stated fails: on a canvas of 163 by 164 the anchors merge, the path has one node,
  and after the tick the score is still 0.
\<close>

theorem coincident_anchors_counterexample:
  "hypot (fl_sub (fst start) (fst (dest canvas1))) (fl_sub (snd start) (snd (dest canvas1))) < SNAP_THRESHOLD \<and>
   roads initial = [] \<and> score initial = 0 \<and>
   buildGraph canvas1 [] =
     Inr \<lparr>nodes = [anchor], adj = [(0, [])], startNode = anchor, destNode = anchor\<rparr> \<and>
   findPath \<lparr>nodes = [anchor], adj = [(0, [])], startNode = anchor, destNode = anchor\<rparr> =
     Some (Inr (Some [Some anchor])) \<and>
   map_option (map_sum id score) (updateCar canvas1 initial) = Some (Inr 0) \<and>
   map_option (map_sum id score) (updateCar_cls canvas1 initial) = Some (Inr 0)"
proof -
  have r: "roads initial = []" "score initial = 0" by (simp_all add: initial_def)
  have idle: "Car_update (initial\<lparr>car := (car initial)\<lparr>car_path := Some [Some anchor]\<rparr>\<rparr>) =
      Inr (initial\<lparr>car := (car initial)\<lparr>car_path := Some [Some anchor]\<rparr>\<rparr>)"
    by (rule Car_update_short_path[of _ "[Some anchor]"]) simp_all
  have "updateCar canvas1 initial = Some (Inr (initial\<lparr>car := (car initial)\<lparr>car_path := Some [Some anchor]\<rparr>\<rparr>))"
    using idle by (simp add: updateCar_def r coincident_build[OF near1] coincident_find)
  moreover have "updateCar_cls canvas1 initial = Some (Inr (initial\<lparr>car := (car initial)\<lparr>car_path := Some [Some anchor]\<rparr>\<rparr>))"
    using idle by (simp add: updateCar_cls_def r coincident_build[OF near1] coincident_find Let_def)
  ultimately show ?thesis
    using near1 r coincident_build[OF near1] coincident_find by simp
qed


lemma frames_idle:
  assumes step: "updateCar cv st = Some (Inr st')" and again: "updateCar cv st' = Some (Inr st')"
  shows "run cv (replicate (Suc k) Frame) st = Some (Inr st')"
proof -
  have "run cv (replicate k Frame) st' = Some (Inr st')" for k
    by (induction k) (simp_all add: again)
  then show ?thesis using step by simp
qed

lemma frames_idle_cls:
  assumes step: "updateCar_cls cv st = Some (Inr st')" and again: "updateCar_cls cv st' = Some (Inr st')"
  shows "run_cls cv (replicate (Suc k) Frame) st = Some (Inr st')"
proof -
  have "run_cls cv (replicate k Frame) st' = Some (Inr st')" for k
    by (induction k) (simp_all add: again)
  then show ?thesis using step by simp
qed

text \<open>
  C5: when no sequence of edges connects the start node to the destination node of the
  graph built from the current roads, \<^verbatim>\<open>findPath\<close> returns \<^verbatim>\<open>null\<close>, and after
  any positive number of ticks the state is the one before the first tick with the path
  set to \<^verbatim>\<open>null\<close>: position and score have not changed.
\<close>

theorem no_path_idle:
  "(\<exists>g. buildGraph cv (roads st) = Inr g \<and>
        (\<not> linked g \<longrightarrow>
           findPath g = Some (Inr None) \<and>
           (\<forall>k. run cv (replicate (Suc k) Frame) st =
                Some (Inr (st\<lparr>car := (car st)\<lparr>car_path := None\<rparr>\<rparr>))))) \<and>
   (\<exists>g. buildGraph_cls cv (roads st) = Inr g \<and>
        (\<not> linked g \<longrightarrow>
           findPath_cls g = Some None \<and>
           (\<forall>k. run_cls cv (replicate (Suc k) Frame) st =
                Some (Inr (st\<lparr>car := (car st)\<lparr>car_path := None\<rparr>\<rparr>)))))"
proof -
  let ?st' = "st\<lparr>car := (car st)\<lparr>car_path := None\<rparr>\<rparr>"
  from buildGraph_ok[of cv "roads st"] obtain g where
    g: "buildGraph cv (roads st) = Inr g" "wf_graph g" "\<forall>k < length (nodes g). map_of (adj g) k \<noteq> None"
    by blast
  from buildGraph_cls_ok[of cv "roads st"] obtain h where
    h: "buildGraph_cls cv (roads st) = Inr h" "wf_graph h"
    by blast
  have idle: "Car_update ?st' = Inr ?st'"
    by (rule Car_update_no_path) simp
  have "findPath g = Some (Inr None) \<and>
      (\<forall>k. run cv (replicate (Suc k) Frame) st = Some (Inr ?st'))" if "\<not> linked g"
  proof -
    from findPath_result[OF g(2,3)] that have f: "findPath g = Some (Inr None)" by blast
    have 1: "updateCar cv st = Some (Inr ?st')"
      using idle by (simp add: updateCar_def g(1) f)
    have 2: "updateCar cv ?st' = Some (Inr ?st')"
      using idle by (simp add: updateCar_def g(1) f)
    from frames_idle[OF 1 2] f show ?thesis by blast
  qed
  moreover
  have "findPath_cls h = Some None \<and>
      (\<forall>k. run_cls cv (replicate (Suc k) Frame) st = Some (Inr ?st'))" if "\<not> linked h"
  proof -
    from findPath_cls_result[OF h(2)] that have f: "findPath_cls h = Some None" by blast
    have 1: "updateCar_cls cv st = Some (Inr ?st')"
      using idle by (simp add: updateCar_cls_def h(1) f Let_def)
    have 2: "updateCar_cls cv ?st' = Some (Inr ?st')"
      using idle by (simp add: updateCar_cls_def h(1) f Let_def)
    from frames_idle_cls[OF 1 2] f show ?thesis by blast
  qed
  ultimately show ?thesis using g(1) h(1) by blast
qed

definition graph_empty :: graph where
  "graph_empty =
     \<lparr>nodes = [\<lparr>node_id = 0, node_x = 80, node_y = 80\<rparr>,
               \<lparr>node_id = 1, node_x = 720, node_y = 520\<rparr>],
      adj = [(0, []), (1, [])],
      startNode = \<lparr>node_id = 0, node_x = 80, node_y = 80\<rparr>,
      destNode = \<lparr>node_id = 1, node_x = 720, node_y = 520\<rparr>\<rparr>"

definition graph_empty_cls :: graph where
  "graph_empty_cls = graph_empty\<lparr>adj := []\<rparr>"

lemma build_empty:
  "buildGraph canvas0 [] = Inr graph_empty" "buildGraph_cls canvas0 [] = Inr graph_empty_cls"
  by (simp_all add: build_simps canvas0_def graph_empty_def graph_empty_cls_def)

lemma no_edges: "edges (adj graph_empty) = {}" "edges (adj graph_empty_cls) = {}"
  by (auto simp: edges_def adjacent_def neighbors_cls_def graph_empty_def graph_empty_cls_def)

lemma disconnected_empty: "\<not> linked graph_empty" "\<not> linked graph_empty_cls"
  by (simp_all add: linked_def no_edges) (simp_all add: graph_empty_def graph_empty_cls_def)

theorem no_path_idle_witness:
  "buildGraph canvas0 (roads initial) = Inr graph_empty \<and>
   buildGraph_cls canvas0 (roads initial) = Inr graph_empty_cls \<and>
   findPath graph_empty = Some (Inr None) \<and> findPath_cls graph_empty_cls = Some None \<and>
   run canvas0 [Frame, Frame, Frame] initial = Some (Inr (initial\<lparr>car := (car initial)\<lparr>car_path := None\<rparr>\<rparr>)) \<and>
   run_cls canvas0 [Frame, Frame, Frame] initial = Some (Inr (initial\<lparr>car := (car initial)\<lparr>car_path := None\<rparr>\<rparr>))"
proof -
  have r: "roads initial = []" by (simp add: initial_def)
  have three: "[Frame, Frame, Frame] = replicate (Suc 2) Frame" by (simp add: numeral_2_eq_2)
  from no_path_idle[of canvas0 initial] disconnected_empty
  have f: "findPath graph_empty = Some (Inr None)" "findPath_cls graph_empty_cls = Some None"
    and a: "\<forall>k. run canvas0 (replicate (Suc k) Frame) initial =
        Some (Inr (initial\<lparr>car := (car initial)\<lparr>car_path := None\<rparr>\<rparr>))"
    and b: "\<forall>k. run_cls canvas0 (replicate (Suc k) Frame) initial =
        Some (Inr (initial\<lparr>car := (car initial)\<lparr>car_path := None\<rparr>\<rparr>))"
    unfolding r build_empty by auto
  from a b have "run canvas0 [Frame, Frame, Frame] initial =
        Some (Inr (initial\<lparr>car := (car initial)\<lparr>car_path := None\<rparr>\<rparr>))"
    "run_cls canvas0 [Frame, Frame, Frame] initial =
        Some (Inr (initial\<lparr>car := (car initial)\<lparr>car_path := None\<rparr>\<rparr>))"
    unfolding three by blast+
  with f show ?thesis by (simp add: r build_empty)
qed

















definition detour :: "event list" where
  "detour = [MouseDown 80 80, MouseUp 80 96, MouseDown 80 96, MouseUp 720 520]"

definition shortcut :: "event list" where
  "shortcut = [MouseDown 80 80, MouseUp 720 520]"

lemmas event_simps = mousedown_def mouseup_def mousemove_def hypot_long hypot_short hypot_axis

definition roads3 :: "road list" where
  "roads3 = [\<lparr>road_x1 = 80, road_y1 = 80, road_x2 = 80, road_y2 = 96\<rparr>,
             \<lparr>road_x1 = 80, road_y1 = 96, road_x2 = 720, road_y2 = 520\<rparr>,
             \<lparr>road_x1 = 80, road_y1 = 80, road_x2 = 720, road_y2 = 520\<rparr>]"

lemma after_detour:
  "run canvas0 detour initial = Some (Inr (initial\<lparr>roads := take 2 roads3, drawStart := (80, 96)\<rparr>))"
  "run_cls canvas0 detour initial = Some (Inr (initial\<lparr>roads := take 2 roads3, drawStart := (80, 96)\<rparr>))"
  by (simp_all add: detour_def event_simps fl_simps initial_def roads3_def)


definition stale_index :: "event list" where
  "stale_index =
     detour @ [Frame, Frame, Frame, Frame, Frame, Frame, Frame, Frame] @ shortcut @ [Frame]"

lemmas tick_simps =
  updateCar_def updateCar_cls_def Car_update_def add_progress_def js_nth_def resetCar_def

text \<open>
  The run that C2 is tested on.  After the detour and eight frames the index is 1 on a
  path of three nodes; with the direct road added the path found has two nodes.
\<close>

lemma before_shortcut:
  "map_option (map_sum id (\<lambda>t. (car_segIndex (car t), map_option length (car_path (car t)), score t)))
     (run canvas0 (detour @ [Frame, Frame, Frame, Frame, Frame, Frame, Frame, Frame]) initial) =
   Some (Inr (1, Some 3, 0))"
  "map_option (map_sum id (\<lambda>t. (car_segIndex (car t), map_option length (car_path (car t)), score t)))
     (run_cls canvas0 (detour @ [Frame, Frame, Frame, Frame, Frame, Frame, Frame, Frame]) initial) =
   Some (Inr (1, Some 3, 0))"
  by (simp_all add: detour_def event_simps build_simps path_simps tick_simps initial_def canvas0_def)

lemma shortcut_path:
  "map_sum id (map_option (map_sum id (map_option length)) \<circ> findPath) (buildGraph canvas0 roads3) =
     Inr (Some (Inr (Some 2)))"
  "map_sum id (map_option (map_option length) \<circ> findPath_cls) (buildGraph_cls canvas0 roads3) =
     Inr (Some (Some 2))"
  by (simp_all add: build_simps path_simps canvas0_def roads3_def)


text \<open>
  C2 fails in both scripts.  The user draws a detour (origin to (80, 96), then on to the
  destination); after eight frames the vehicle has finished the first of the two segments
  and its index is 1.  The user then draws the direct road; the next frame finds a path of
  two nodes, and the motion code reads \<^verbatim>\<open>path[2].x\<close>, a TypeError.  game.js has no
  check of the index; the check of the second script, \<^verbatim>\<open>segIndex >= path.length\<close>,
  lets the index \<^verbatim>\<open>path.length - 1\<close> pass.
\<close>

theorem stale_index_throws:
  "run canvas0 stale_index initial = Some (Inl TypeError) \<and>
   run_cls canvas0 stale_index initial = Some (Inl TypeError)"
  by (simp add: stale_index_def detour_def shortcut_def event_simps build_simps path_simps tick_simps
      initial_def canvas0_def)
















































end
